theory Spec2Isabelle
  imports Main "HOL-Library.Word"
begin

unbundle bit_operations_syntax

section \<open>Strings, bytes and errors\<close>

text \<open>
  A JavaScript string is a sequence of UTF-16 code units, a \<^verbatim>\<open>Uint8Array\<close> a sequence of
  bytes. \<open>js\<close> turns an ASCII literal of the theory into a JavaScript string.
\<close>

type_synonym byte = "8 word"
type_synonym bytes = "byte list"
type_synonym code_unit = "16 word"
type_synonym jsstring = "code_unit list"

definition js :: "string \<Rightarrow> jsstring" where
  "js s = map of_char s"

text \<open>
  What the functions throw: \<open>SyntaxError\<close> comes from \<^verbatim>\<open>BigInt(string)\<close>, \<open>TypeError\<close> from
  converting a Symbol to a string, \<open>RangeError\<close> from \<^verbatim>\<open>TypedArray.prototype.set\<close>; the two
  \<^verbatim>\<open>throw new Error(...)\<close> of the source carry the variant name and the \<^verbatim>\<open>typeof\<close> string of
  their messages.
\<close>

datatype error =
    SyntaxError
  | TypeError
  | RangeError
  | EnumVariantNotFound jsstring
  | CannotEncodeType string

section \<open>The built-ins the encoder calls\<close>

subsection \<open>Digits and white space\<close>

definition is_StrWhiteSpaceChar :: "code_unit \<Rightarrow> bool" where
  "is_StrWhiteSpaceChar c \<longleftrightarrow>
     c \<in> set [0x9, 0xA, 0xB, 0xC, 0xD, 0x20, 0xA0, 0x1680,
                0x2000, 0x2001, 0x2002, 0x2003, 0x2004, 0x2005, 0x2006, 0x2007, 0x2008, 0x2009,
                0x200A, 0x2028, 0x2029, 0x202F, 0x205F, 0x3000, 0xFEFF]"

definition digit_value :: "code_unit \<Rightarrow> nat option" where
  "digit_value c =
     (if 0x30 \<le> c \<and> c \<le> 0x39 then Some (unat c - 0x30)
      else if 0x61 \<le> c \<and> c \<le> 0x7A then Some (unat c - 0x61 + 10)
      else if 0x41 \<le> c \<and> c \<le> 0x5A then Some (unat c - 0x41 + 10)
      else None)"

definition is_radix_digit :: "nat \<Rightarrow> code_unit \<Rightarrow> bool" where
  "is_radix_digit R c = (case digit_value c of None \<Rightarrow> False | Some d \<Rightarrow> d < R)"

definition digits_value :: "nat \<Rightarrow> jsstring \<Rightarrow> nat" where
  "digits_value R s =
     foldl (\<lambda>a c. a * R + (case digit_value c of None \<Rightarrow> 0 | Some d \<Rightarrow> d)) 0 s"

subsection \<open>\<^verbatim>\<open>parseInt(string, radix)\<close> and the store into a \<^verbatim>\<open>Uint8Array\<close>\<close>

text \<open>
  ECMA-262 \<^verbatim>\<open>parseInt\<close> for a radix between 2 and 36: leading white space is skipped, a sign
  is read, a \<^verbatim>\<open>0x\<close> prefix is dropped when the radix is 16, and the longest prefix of digits
  of the radix is the value; with no digit the result is \<^verbatim>\<open>NaN\<close>, here \<open>None\<close>. (A negative zero
  is the integer 0: the only use of the result is the store below, which maps both zeros to 0.)
\<close>

definition parseInt :: "jsstring \<Rightarrow> nat \<Rightarrow> int option" where
  "parseInt inputString R =
     (let S = dropWhile is_StrWhiteSpaceChar inputString;
          sign = (if S \<noteq> [] \<and> hd S = 0x2D then - 1 else 1 :: int);
          S1 = (if S \<noteq> [] \<and> (hd S = 0x2B \<or> hd S = 0x2D) then tl S else S);
          stripPrefix = (R = 16);
          S2 = (if stripPrefix \<and> 2 \<le> length S1 \<and> (take 2 S1 = js ''0x'' \<or> take 2 S1 = js ''0X'')
                then drop 2 S1 else S1);
          Z = takeWhile (is_radix_digit R) S2
      in if Z = [] then None else Some (sign * int (digits_value R Z)))"

text \<open>
  \<^verbatim>\<open>bytes[i] = v\<close> on a \<^verbatim>\<open>Uint8Array\<close> stores \<^verbatim>\<open>ToUint8(v)\<close>: 0 for \<^verbatim>\<open>NaN\<close>, the integer modulo 256
  otherwise.
\<close>

definition ToUint8 :: "int option \<Rightarrow> byte" where
  "ToUint8 v = (case v of None \<Rightarrow> 0 | Some i \<Rightarrow> of_int i)"

definition substr :: "jsstring \<Rightarrow> nat \<Rightarrow> nat \<Rightarrow> jsstring" where
  "substr s start len = take len (drop start s)"

subsection \<open>\<^verbatim>\<open>BigInt(string)\<close>\<close>

text \<open>
  ECMA-262 \<^verbatim>\<open>StringToBigInt\<close>: white space is trimmed on both sides; the empty string is 0; a
  \<^verbatim>\<open>0x\<close>, \<^verbatim>\<open>0o\<close> or \<^verbatim>\<open>0b\<close> prefix reads an unsigned literal of that radix; otherwise an optional
  sign and decimal digits. Anything else is a \<^verbatim>\<open>SyntaxError\<close>.
\<close>

definition parse_digits :: "nat \<Rightarrow> jsstring \<Rightarrow> nat option" where
  "parse_digits R s =
     (if s \<noteq> [] \<and> list_all (is_radix_digit R) s then Some (digits_value R s) else None)"

definition trim :: "jsstring \<Rightarrow> jsstring" where
  "trim s = rev (dropWhile is_StrWhiteSpaceChar (rev (dropWhile is_StrWhiteSpaceChar s)))"

definition StringToBigInt :: "jsstring \<Rightarrow> int option" where
  "StringToBigInt str =
     (let t = trim str in
      if t = [] then Some 0
      else if take 2 t = js ''0x'' \<or> take 2 t = js ''0X'' then map_option int (parse_digits 16 (drop 2 t))
      else if take 2 t = js ''0o'' \<or> take 2 t = js ''0O'' then map_option int (parse_digits 8 (drop 2 t))
      else if take 2 t = js ''0b'' \<or> take 2 t = js ''0B'' then map_option int (parse_digits 2 (drop 2 t))
      else if hd t = 0x2B then map_option int (parse_digits 10 (tl t))
      else if hd t = 0x2D then map_option (\<lambda>n. - int n) (parse_digits 10 (tl t))
      else map_option int (parse_digits 10 t))"

definition BigInt :: "jsstring \<Rightarrow> error + int" where
  "BigInt str = (case StringToBigInt str of None \<Rightarrow> Inl SyntaxError | Some v \<Rightarrow> Inr v)"

subsection \<open>\<^verbatim>\<open>toString()\<close> of a bigint and of a number\<close>

fun digits10 :: "nat \<Rightarrow> nat list" where
  "digits10 n = (if n < 10 then [n] else digits10 (n div 10) @ [n mod 10])"

declare digits10.simps [simp del]

definition digit_char :: "nat \<Rightarrow> code_unit" where
  "digit_char d = of_nat (0x30 + d)"

definition decimal :: "nat \<Rightarrow> jsstring" where
  "decimal n = map digit_char (digits10 n)"

definition BigInt_toString :: "int \<Rightarrow> jsstring" where
  "BigInt_toString v = (if v < 0 then js ''-'' @ decimal (nat (- v)) else decimal (nat v))"

text \<open>
  The source reads a Number only through \<^verbatim>\<open>toString()\<close>. ECMA-262 \<^verbatim>\<open>Number::toString\<close> prints a
  finite non-zero number \<open>x\<close> from the integers \<open>s\<close> (the digits) and \<open>n\<close> (the place of the decimal
  point) for which \<open>s * 10 ^ (n - k)\<close> is \<open>x\<close> or rounds to \<open>x\<close>, \<open>k\<close> being the number of digits of
  \<open>s\<close> and as small as possible. Those two integers identify the number, and \<open>Decimal\<close> holds them
  with the sign: \<^verbatim>\<open>5\<close> is \<open>Decimal False 5 1\<close>, \<^verbatim>\<open>1.5\<close> is \<open>Decimal False 15 1\<close>, \<^verbatim>\<open>1e21\<close> is
  \<open>Decimal False 1 22\<close>. Both zeros print \<^verbatim>\<open>0\<close> and are \<open>Zero\<close>. The rounding of binary floating
  point itself is not modelled: a number whose decimal is an integer below \<open>2 ^ 53\<close> is that
  integer exactly, and so is every integer decimal whose odd part is below \<open>2 ^ 53\<close>.
\<close>

datatype number =
    NaN
  | Infinity bool
  | Zero
  | Decimal bool nat int

definition Number_toString_positive :: "nat \<Rightarrow> int \<Rightarrow> jsstring" where
  "Number_toString_positive s n =
     (let ds = decimal s; k = int (length ds) in
      if k \<le> n \<and> n \<le> 21 then ds @ replicate (nat (n - k)) 0x30
      else if 0 < n \<and> n \<le> 21 then take (nat n) ds @ js ''.'' @ drop (nat n) ds
      else if - 6 < n \<and> n \<le> 0 then js ''0.'' @ replicate (nat (- n)) 0x30 @ ds
      else
        (let e = n - 1;
             exponent = js (if e < 0 then ''-'' else ''+'') @ decimal (nat \<bar>e\<bar>)
         in if k = 1 then ds @ js ''e'' @ exponent
            else take 1 ds @ js ''.'' @ drop 1 ds @ js ''e'' @ exponent))"

fun Number_toString :: "number \<Rightarrow> jsstring" where
  "Number_toString NaN = js ''NaN''"
| "Number_toString Zero = js ''0''"
| "Number_toString (Infinity negative) = js (if negative then ''-Infinity'' else ''Infinity'')"
| "Number_toString (Decimal negative s n) =
     (if negative then js ''-'' else []) @ Number_toString_positive s n"

subsection \<open>\<^verbatim>\<open>TextEncoder.encode\<close>\<close>

text \<open>
  UTF-8 of a UTF-16 string: one to three bytes for a code unit outside the surrogate range,
  four bytes for a surrogate pair, and the three bytes of U+FFFD for a lone surrogate.
\<close>

definition utf8_3 :: "code_unit \<Rightarrow> bytes" where
  "utf8_3 c = [0xE0 OR ucast (drop_bit 12 c), 0x80 OR ucast (drop_bit 6 c AND 0x3F),
               0x80 OR ucast (c AND 0x3F)]"

definition utf8_4 :: "code_unit \<Rightarrow> code_unit \<Rightarrow> bytes" where
  "utf8_4 hi lo =
     (let cp = (0x10000 + push_bit 10 (ucast (hi - 0xD800)) + ucast (lo - 0xDC00) :: 32 word)
      in [0xF0 OR ucast (drop_bit 18 cp), 0x80 OR ucast (drop_bit 12 cp AND 0x3F),
          0x80 OR ucast (drop_bit 6 cp AND 0x3F), 0x80 OR ucast (cp AND 0x3F)])"

fun TextEncoder_encode :: "jsstring \<Rightarrow> bytes" where
  "TextEncoder_encode [] = []"
| "TextEncoder_encode [c] =
     (if c < 0x80 then [ucast c]
      else if c < 0x800 then [0xC0 OR ucast (drop_bit 6 c), 0x80 OR ucast (c AND 0x3F)]
      else if 0xD800 \<le> c \<and> c \<le> 0xDFFF then [0xEF, 0xBF, 0xBD]
      else utf8_3 c)"
| "TextEncoder_encode (c # d # cs) =
     (if c < 0x80 then ucast c # TextEncoder_encode (d # cs)
      else if c < 0x800 then
        [0xC0 OR ucast (drop_bit 6 c), 0x80 OR ucast (c AND 0x3F)] @ TextEncoder_encode (d # cs)
      else if 0xD800 \<le> c \<and> c \<le> 0xDBFF \<and> 0xDC00 \<le> d \<and> d \<le> 0xDFFF then
        utf8_4 c d @ TextEncoder_encode cs
      else if 0xD800 \<le> c \<and> c \<le> 0xDFFF then [0xEF, 0xBF, 0xBD] @ TextEncoder_encode (d # cs)
      else utf8_3 c @ TextEncoder_encode (d # cs))"

subsection \<open>The two regular expressions\<close>

text \<open>\<^verbatim>\<open>/^\d+$/.test(str)\<close> and \<^verbatim>\<open>/^[A-Z]/.test(key)\<close>.\<close>

definition test_decimal_digits :: "jsstring \<Rightarrow> bool" where
  "test_decimal_digits str \<longleftrightarrow> str \<noteq> [] \<and> list_all (\<lambda>c. 0x30 \<le> c \<and> c \<le> 0x39) str"

definition test_uppercase_first :: "jsstring \<Rightarrow> bool" where
  "test_uppercase_first key = (case key of [] \<Rightarrow> False | c # _ \<Rightarrow> 0x41 \<le> c \<and> c \<le> 0x5A)"

subsection \<open>\<^verbatim>\<open>DataView.setBigUint64(0, v, false)\<close> on a fresh 8-byte buffer\<close>

text \<open>The value is taken modulo \<open>2 ^ 64\<close> and written most significant byte first.\<close>

definition setBigUint64 :: "int \<Rightarrow> bytes" where
  "setBigUint64 v =
     (let w = (of_int v :: 64 word) in map (\<lambda>i. ucast (drop_bit (8 * (7 - i)) w)) [0..<8])"

section \<open>Values\<close>

text \<open>
  The dynamically typed input: the primitives, arrays, objects, functions and symbols. An object
  lists its own enumerable string-keyed properties in the order \<^verbatim>\<open>Object.keys\<close> enumerates them
  (the keys are distinct, so \<^verbatim>\<open>input[key]\<close> is the value listed with \<open>key\<close>), and carries what its
  \<^verbatim>\<open>toString()\<close> returns when a class overrides it, as the big-number class of the Fuel SDK does:
  \<open>None\<close> for a plain object, whose inherited \<^verbatim>\<open>Object.prototype.toString\<close> returns
  \<^verbatim>\<open>[object Object]\<close>. Objects with an own property named \<^verbatim>\<open>toString\<close>, getters, proxies and sparse
  arrays are outside this fragment.
\<close>

datatype jsval =
    JNull
  | JUndefined
  | JString jsstring
  | JNumber number
  | JBigInt int
  | JBoolean bool
  | JArray "jsval list"
  | JObject "jsstring option" "(jsstring \<times> jsval) list"
  | JFunction
  | JSymbol

fun typeof :: "jsval \<Rightarrow> string" where
  "typeof JNull = ''object''"
| "typeof JUndefined = ''undefined''"
| "typeof (JString s) = ''string''"
| "typeof (JNumber x) = ''number''"
| "typeof (JBigInt v) = ''bigint''"
| "typeof (JBoolean b) = ''boolean''"
| "typeof (JArray xs) = ''object''"
| "typeof (JObject ts fields) = ''object''"
| "typeof JFunction = ''function''"
| "typeof JSymbol = ''symbol''"

text \<open>
  \<^verbatim>\<open>ToString\<close> of a value, which is also what \<^verbatim>\<open>input.toString()\<close> returns for an array or an
  object: \<^verbatim>\<open>Array.prototype.toString\<close> joins the elements with commas, printing \<^verbatim>\<open>null\<close> and
  \<^verbatim>\<open>undefined\<close> as the empty string. A Symbol has no string conversion (\<^verbatim>\<open>TypeError\<close>). The text
  of a function is its source, which never consists of decimal digits only; one text stands for
  all of them.
\<close>

fun ToString :: "jsval \<Rightarrow> error + jsstring"
  and join_element :: "jsval \<Rightarrow> error + jsstring"
  and join :: "jsval list \<Rightarrow> error + jsstring" where
  "ToString JNull = Inr (js ''null'')"
| "ToString JUndefined = Inr (js ''undefined'')"
| "ToString (JString s) = Inr s"
| "ToString (JNumber x) = Inr (Number_toString x)"
| "ToString (JBigInt v) = Inr (BigInt_toString v)"
| "ToString (JBoolean b) = Inr (js (if b then ''true'' else ''false''))"
| "ToString (JArray xs) = join xs"
| "ToString (JObject ts fields) =
     Inr (case ts of None \<Rightarrow> js ''[object Object]'' | Some s \<Rightarrow> s)"
| "ToString JFunction = Inr (js ''function () { [native code] }'')"
| "ToString JSymbol = Inl TypeError"
| "join_element JNull = Inr []"
| "join_element JUndefined = Inr []"
| "join_element (JString s) = ToString (JString s)"
| "join_element (JNumber x) = ToString (JNumber x)"
| "join_element (JBigInt v) = ToString (JBigInt v)"
| "join_element (JBoolean b) = ToString (JBoolean b)"
| "join_element (JArray xs) = ToString (JArray xs)"
| "join_element (JObject ts fields) = ToString (JObject ts fields)"
| "join_element JFunction = ToString JFunction"
| "join_element JSymbol = ToString JSymbol"
| "join [] = Inr []"
| "join [x] = join_element x"
| "join (x # y # ys) =
     (case join_element x of
        Inl e \<Rightarrow> Inl e
      | Inr s \<Rightarrow> (case join (y # ys) of Inl e \<Rightarrow> Inl e | Inr r \<Rightarrow> Inr (s @ js '','' @ r)))"

section \<open>Copying chunks into one array\<close>

text \<open>
  \<^verbatim>\<open>result.set(bytes, offset)\<close> overwrites \<open>result\<close> from \<open>offset\<close> on and throws a \<^verbatim>\<open>RangeError\<close> when
  the source does not fit.
\<close>

definition set_at :: "bytes \<Rightarrow> bytes \<Rightarrow> nat \<Rightarrow> error + bytes" where
  "set_at result src offset =
     (if offset + length src \<le> length result
      then Inr (take offset result @ src @ drop (offset + length src) result)
      else Inl RangeError)"

text \<open>
  The loop \<^verbatim>\<open>for (const bytes of chunks) { result.set(bytes, offset); offset += bytes.length; }\<close>
\<close>

fun copy_chunks :: "bytes list \<Rightarrow> bytes \<Rightarrow> nat \<Rightarrow> error + bytes" where
  "copy_chunks [] result offset = Inr result"
| "copy_chunks (b # bs) result offset =
     (case set_at result b offset of
        Inl e \<Rightarrow> Inl e
      | Inr result' \<Rightarrow> copy_chunks bs result' (offset + length b))"

text \<open>
  The block that the source repeats for array elements, struct fields, arguments and the
  Hasher's buffer: the total size by \<^verbatim>\<open>reduce\<close>, a zero-filled array of that size, the loop.
\<close>

definition concat_chunks :: "bytes list \<Rightarrow> error + bytes" where
  "concat_chunks chunks =
     (let totalSize = foldl (\<lambda>sum b. sum + length b) 0 chunks;
          result = replicate totalSize 0
      in copy_chunks chunks result 0)"

section \<open>The encoder with an enum context\<close>

text \<open>
  \<^verbatim>\<open>enumContext\<close> is an object from enum names to arrays of variant names, or \<^verbatim>\<open>undefined\<close>; its
  entries are listed in the order of \<^verbatim>\<open>Object.entries\<close>.
\<close>

type_synonym enum_context = "(jsstring \<times> jsstring list) list"

text \<open>\<^verbatim>\<open>variants.indexOf(variantName)\<close>: the first position, \<open>- 1\<close> when there is none.\<close>

fun indexOf :: "'a list \<Rightarrow> 'a \<Rightarrow> int" where
  "indexOf [] x = - 1"
| "indexOf (y # ys) x =
     (if y = x then 0 else (let r = indexOf ys x in if r < 0 then - 1 else r + 1))"

text \<open>
  The loop over \<^verbatim>\<open>Object.entries(enumContext)\<close> that stops at the first entry whose variants
  include the name; \<open>None\<close> is \<^verbatim>\<open>enumFound === false\<close>.
\<close>

fun find_discriminant :: "enum_context \<Rightarrow> jsstring \<Rightarrow> int option" where
  "find_discriminant [] variantName = None"
| "find_discriminant ((enumName, variants) # rest) variantName =
     (if variantName \<in> set variants then Some (indexOf variants variantName)
      else find_discriminant rest variantName)"

definition resolve_discriminant :: "enum_context option \<Rightarrow> jsstring \<Rightarrow> int option" where
  "resolve_discriminant enumContext variantName =
     (case enumContext of None \<Rightarrow> None | Some entries \<Rightarrow> find_discriminant entries variantName)"

text \<open>The b256 branch: 32 bytes, each parsed from two characters of the string after \<^verbatim>\<open>0x\<close>.\<close>

definition b256_bytes :: "jsstring \<Rightarrow> bytes" where
  "b256_bytes input =
     (let hexStr = drop 2 input
      in map (\<lambda>i. ToUint8 (parseInt (substr hexStr (i * 2) 2) 16)) [0..<32])"

definition encode_string :: "jsstring \<Rightarrow> bytes" where
  "encode_string input =
     (if take 2 input = js ''0x'' \<and> length input = 66 then b256_bytes input
      else TextEncoder_encode input)"

text \<open>The number and bigint branch, and the big-number branch once the string is known.\<close>

definition encode_u64 :: "jsstring \<Rightarrow> error + bytes" where
  "encode_u64 str = (case BigInt str of Inl e \<Rightarrow> Inl e | Inr v \<Rightarrow> Inr (setBigUint64 v))"

text \<open>\<^verbatim>\<open>Array.isArray(input.elements)\<close>, with the array when it holds.\<close>

definition elements_array :: "(jsstring \<times> jsval) list \<Rightarrow> jsval list option" where
  "elements_array fields =
     (case map_of fields (js ''elements'') of
        Some (JArray elements) \<Rightarrow> Some elements
      | _ \<Rightarrow> None)"

lemma size_map_of:
  "map_of fields k = Some v \<Longrightarrow> size v < Suc (size_list (size_prod (\<lambda>_. 0) size) fields)"
  by (induction fields) (auto split: if_splits)

lemma size_elements_array:
  "elements_array fields = Some elements \<Longrightarrow>
     size_list size elements < size_list (size_prod (\<lambda>_. 0) size) fields"
  using size_map_of [of fields "js ''elements''" "JArray elements"]
  by (auto simp: elements_array_def split: option.splits jsval.splits)

lemma size_single_field:
  "length fields = Suc 0 \<Longrightarrow>
     size (snd (hd fields)) < Suc (size_list (size_prod (\<lambda>_. 0) size) fields)"
  by (cases fields) auto

text \<open>
  \<^verbatim>\<open>encodeInputAsBytes(input, enumContext)\<close>, one equation for each \<^verbatim>\<open>typeof\<close> and the branches in
  the order of the source. An array and an object first meet the big-number test (both are
  objects with a \<^verbatim>\<open>toString\<close> function); an object then meets the \<^verbatim>\<open>Vec\<close> test, the enum test and
  the struct loop. \<open>encode_each\<close> is \<^verbatim>\<open>input.map((item) => encodeInputAsBytes(item, enumContext))\<close>
  and \<open>encode_fields\<close> the loop that pushes \<^verbatim>\<open>encodeInputAsBytes(input[key], enumContext)\<close> for every
  key; both stop at the first element that throws. The enum is not found before its value is
  encoded, so a missing variant is reported first.
\<close>

function (sequential) encodeInputAsBytes :: "jsval \<Rightarrow> enum_context option \<Rightarrow> error + bytes"
  and encode_each :: "jsval list \<Rightarrow> enum_context option \<Rightarrow> error + bytes list"
  and encode_fields :: "(jsstring \<times> jsval) list \<Rightarrow> enum_context option \<Rightarrow> error + bytes list"
where
  "encodeInputAsBytes JNull enumContext = Inr []"
| "encodeInputAsBytes JUndefined enumContext = Inr []"
| "encodeInputAsBytes (JString input) enumContext = Inr (encode_string input)"
| "encodeInputAsBytes (JNumber input) enumContext = encode_u64 (Number_toString input)"
| "encodeInputAsBytes (JBigInt input) enumContext = encode_u64 (BigInt_toString input)"
| "encodeInputAsBytes (JBoolean input) enumContext = Inr [if input then 1 else 0]"
| "encodeInputAsBytes (JArray input) enumContext =
     (case ToString (JArray input) of
        Inl e \<Rightarrow> Inl e
      | Inr str \<Rightarrow>
          if test_decimal_digits str then encode_u64 str
          else
            (case encode_each input enumContext of
               Inl e \<Rightarrow> Inl e
             | Inr elementBytes \<Rightarrow> concat_chunks elementBytes))"
| "encodeInputAsBytes (JObject ts fields) enumContext =
     (case ToString (JObject ts fields) of
        Inl e \<Rightarrow> Inl e
      | Inr str \<Rightarrow>
          if test_decimal_digits str then encode_u64 str
          else
            (case elements_array fields of
               Some elements \<Rightarrow> encodeInputAsBytes (JArray elements) enumContext
             | None \<Rightarrow>
                 (let keys = map fst fields;
                      enumKeys = filter test_uppercase_first keys
                  in if length enumKeys = 1 \<and> length keys = 1 then
                       (let variantName = hd enumKeys;
                            variantValue = snd (hd fields)
                        in case resolve_discriminant enumContext variantName of
                             None \<Rightarrow> Inl (EnumVariantNotFound variantName)
                           | Some discriminant \<Rightarrow>
                               (let discriminantByte = [of_int discriminant] in
                                case encodeInputAsBytes variantValue enumContext of
                                  Inl e \<Rightarrow> Inl e
                                | Inr valueBytes \<Rightarrow>
                                    copy_chunks [discriminantByte, valueBytes]
                                      (replicate (length discriminantByte + length valueBytes) 0) 0))
                     else
                       (case encode_fields fields enumContext of
                          Inl e \<Rightarrow> Inl e
                        | Inr fieldBytes \<Rightarrow> concat_chunks fieldBytes))))"
| "encodeInputAsBytes JFunction enumContext = Inl (CannotEncodeType (typeof JFunction))"
| "encodeInputAsBytes JSymbol enumContext = Inl (CannotEncodeType (typeof JSymbol))"
| "encode_each [] enumContext = Inr []"
| "encode_each (item # items) enumContext =
     (case encodeInputAsBytes item enumContext of
        Inl e \<Rightarrow> Inl e
      | Inr b \<Rightarrow>
          (case encode_each items enumContext of Inl e \<Rightarrow> Inl e | Inr bs \<Rightarrow> Inr (b # bs)))"
| "encode_fields [] enumContext = Inr []"
| "encode_fields ((key, v) # rest) enumContext =
     (case encodeInputAsBytes v enumContext of
        Inl e \<Rightarrow> Inl e
      | Inr b \<Rightarrow>
          (case encode_fields rest enumContext of Inl e \<Rightarrow> Inl e | Inr bs \<Rightarrow> Inr (b # bs)))"
  by pat_completeness auto
termination
  by (relation "measure (\<lambda>x. case x of
          Inl (v, _) \<Rightarrow> size v
        | Inr (Inl (vs, _)) \<Rightarrow> size_list size vs
        | Inr (Inr (fs, _)) \<Rightarrow> size_list (size_prod (\<lambda>_. 0) size) fs)")
     (simp_all add: size_elements_array size_single_field)

text \<open>
  \<^verbatim>\<open>encodeMultipleInputs(...args)\<close>. The last argument is taken for the enum context, and removed
  from the arguments, when it is a non-null object that is not an array and all of whose values
  are arrays of strings.
\<close>

definition is_enum_context :: "jsval \<Rightarrow> bool" where
  "is_enum_context v =
     (case v of
        JObject ts fields \<Rightarrow>
          list_all
            (\<lambda>v. case v of
                    JArray items \<Rightarrow> list_all (\<lambda>item. typeof item = ''string'') items
                  | _ \<Rightarrow> False)
            (map snd fields)
      | _ \<Rightarrow> False)"

fun strings_of :: "jsval \<Rightarrow> jsstring list" where
  "strings_of (JArray items) = concat (map (\<lambda>item. case item of JString s \<Rightarrow> [s] | _ \<Rightarrow> []) items)"
| "strings_of v = []"

fun as_enum_context :: "jsval \<Rightarrow> enum_context" where
  "as_enum_context (JObject ts fields) = map (\<lambda>(enumName, variants). (enumName, strings_of variants)) fields"
| "as_enum_context v = []"

definition encodeMultipleInputs :: "jsval list \<Rightarrow> error + bytes" where
  "encodeMultipleInputs args =
     (let (enumContext, actualArgs) =
            (if 0 < length args \<and> is_enum_context (last args)
             then (Some (as_enum_context (last args)), butlast args)
             else (None, args))
      in case encode_each actualArgs enumContext of
           Inl e \<Rightarrow> Inl e
         | Inr argBytes \<Rightarrow> concat_chunks argBytes)"

section \<open>The encoder of \<^verbatim>\<open>src/index.ts\<close>\<close>

text \<open>
  The second source file has no enum context: the discriminant of a variant comes from a table
  of known names and otherwise from a 32-bit hash of the name. Everything else is the same code.
  Its functions carry the prefix \<open>index\<close> here.

  \<^verbatim>\<open>hash << 5\<close> and \<^verbatim>\<open>hash & hash\<close> convert to a signed 32-bit integer (\<open>ToInt32\<close>); the subtraction
  and the addition between them are exact. \<^verbatim>\<open>variantName in knownVariants\<close> also finds the
  properties of \<^verbatim>\<open>Object.prototype\<close>, none of which starts with an uppercase letter, as every name
  that reaches this function does.
\<close>

definition ToInt32 :: "int \<Rightarrow> int" where
  "ToInt32 x = (x + 2 ^ 31) mod 2 ^ 32 - 2 ^ 31"

definition knownVariants :: "(jsstring \<times> int) list" where
  "knownVariants =
     [(js ''Activate'', 0), (js ''SendFleet'', 1), (js ''Eventual'', 0), (js ''Known'', 1),
      (js ''Address'', 0), (js ''ContractId'', 1)]"

fun hash_loop :: "int \<Rightarrow> jsstring \<Rightarrow> int" where
  "hash_loop hash [] = hash"
| "hash_loop hash (char # rest) =
     (let hash1 = ToInt32 (ToInt32 hash * 2 ^ 5) - hash + uint char;
          hash2 = ToInt32 hash1
      in hash_loop hash2 rest)"

definition getEnumDiscriminant :: "jsstring \<Rightarrow> int" where
  "getEnumDiscriminant variantName =
     (case map_of knownVariants variantName of
        Some d \<Rightarrow> d
      | None \<Rightarrow> \<bar>hash_loop 0 variantName\<bar> mod 256)"

function (sequential) index_encodeInputAsBytes :: "jsval \<Rightarrow> error + bytes"
  and index_encode_each :: "jsval list \<Rightarrow> error + bytes list"
  and index_encode_fields :: "(jsstring \<times> jsval) list \<Rightarrow> error + bytes list"
where
  "index_encodeInputAsBytes JNull = Inr []"
| "index_encodeInputAsBytes JUndefined = Inr []"
| "index_encodeInputAsBytes (JString input) = Inr (encode_string input)"
| "index_encodeInputAsBytes (JNumber input) = encode_u64 (Number_toString input)"
| "index_encodeInputAsBytes (JBigInt input) = encode_u64 (BigInt_toString input)"
| "index_encodeInputAsBytes (JBoolean input) = Inr [if input then 1 else 0]"
| "index_encodeInputAsBytes (JArray input) =
     (case ToString (JArray input) of
        Inl e \<Rightarrow> Inl e
      | Inr str \<Rightarrow>
          if test_decimal_digits str then encode_u64 str
          else
            (case index_encode_each input of
               Inl e \<Rightarrow> Inl e
             | Inr elementBytes \<Rightarrow> concat_chunks elementBytes))"
| "index_encodeInputAsBytes (JObject ts fields) =
     (case ToString (JObject ts fields) of
        Inl e \<Rightarrow> Inl e
      | Inr str \<Rightarrow>
          if test_decimal_digits str then encode_u64 str
          else
            (case elements_array fields of
               Some elements \<Rightarrow> index_encodeInputAsBytes (JArray elements)
             | None \<Rightarrow>
                 (let keys = map fst fields;
                      enumKeys = filter test_uppercase_first keys
                  in if length enumKeys = 1 \<and> length keys = 1 then
                       (let variantName = hd enumKeys;
                            variantValue = snd (hd fields);
                            discriminant = getEnumDiscriminant variantName;
                            discriminantByte = [of_int discriminant]
                        in case index_encodeInputAsBytes variantValue of
                             Inl e \<Rightarrow> Inl e
                           | Inr valueBytes \<Rightarrow>
                               copy_chunks [discriminantByte, valueBytes]
                                 (replicate (length discriminantByte + length valueBytes) 0) 0)
                     else
                       (case index_encode_fields fields of
                          Inl e \<Rightarrow> Inl e
                        | Inr fieldBytes \<Rightarrow> concat_chunks fieldBytes))))"
| "index_encodeInputAsBytes JFunction = Inl (CannotEncodeType (typeof JFunction))"
| "index_encodeInputAsBytes JSymbol = Inl (CannotEncodeType (typeof JSymbol))"
| "index_encode_each [] = Inr []"
| "index_encode_each (item # items) =
     (case index_encodeInputAsBytes item of
        Inl e \<Rightarrow> Inl e
      | Inr b \<Rightarrow> (case index_encode_each items of Inl e \<Rightarrow> Inl e | Inr bs \<Rightarrow> Inr (b # bs)))"
| "index_encode_fields [] = Inr []"
| "index_encode_fields ((key, v) # rest) =
     (case index_encodeInputAsBytes v of
        Inl e \<Rightarrow> Inl e
      | Inr b \<Rightarrow> (case index_encode_fields rest of Inl e \<Rightarrow> Inl e | Inr bs \<Rightarrow> Inr (b # bs)))"
  by pat_completeness auto
termination
  by (relation "measure (\<lambda>x. case x of
          Inl v \<Rightarrow> size v
        | Inr (Inl vs) \<Rightarrow> size_list size vs
        | Inr (Inr fs) \<Rightarrow> size_list (size_prod (\<lambda>_. 0) size) fs)")
     (simp_all add: size_elements_array size_single_field)

definition index_encodeMultipleInputs :: "jsval list \<Rightarrow> error + bytes" where
  "index_encodeMultipleInputs args =
     (case index_encode_each args of
        Inl e \<Rightarrow> Inl e
      | Inr argBytes \<Rightarrow> concat_chunks argBytes)"

section \<open>The Hasher with an enum context\<close>

text \<open>
  Hashers and their buffers are mutable objects, and \<^verbatim>\<open>clone\<close> is about which of them are shared,
  so both live in a heap and are named by their addresses: \<open>arrays\<close> holds the \<^verbatim>\<open>Uint8Array[]\<close>
  arrays, \<open>hashers\<close> the Hasher objects, each with the address of its buffer and its context. A new
  object takes the next address. The chunks themselves are never written after they are made and
  are kept as values.
\<close>

type_synonym ref = nat

record Hasher =
  buffer :: ref
  enumContext :: "enum_context option"

record heap =
  arrays :: "bytes list list"
  hashers :: "Hasher list"

definition new_array :: "bytes list \<Rightarrow> heap \<Rightarrow> ref \<times> heap" where
  "new_array chunks h = (length (arrays h), h\<lparr>arrays := arrays h @ [chunks]\<rparr>)"

text \<open>\<^verbatim>\<open>new Hasher(enumContext)\<close>: the field initialiser makes an empty buffer.\<close>

definition Hasher_new :: "enum_context option \<Rightarrow> heap \<Rightarrow> ref \<times> heap" where
  "Hasher_new ctx h =
     (let (b, h1) = new_array [] h
      in (length (hashers h1), h1\<lparr>hashers := hashers h1 @ [\<lparr>buffer = b, enumContext = ctx\<rparr>]\<rparr>))"

text \<open>
  \<^verbatim>\<open>update(input)\<close> encodes first and pushes second; when the encoder throws, the heap is the one
  before the call. It returns \<^verbatim>\<open>this\<close>.
\<close>

definition Hasher_update :: "jsval \<Rightarrow> ref \<Rightarrow> heap \<Rightarrow> (error + ref) \<times> heap" where
  "Hasher_update input this h =
     (let self = hashers h ! this in
      case encodeInputAsBytes input (enumContext self) of
        Inl e \<Rightarrow> (Inl e, h)
      | Inr bytes \<Rightarrow>
          (Inr this, h\<lparr>arrays := (arrays h)[buffer self := arrays h ! buffer self @ [bytes]]\<rparr>))"

definition Hasher_getBytes :: "ref \<Rightarrow> heap \<Rightarrow> error + bytes" where
  "Hasher_getBytes this h = concat_chunks (arrays h ! buffer (hashers h ! this))"

text \<open>\<^verbatim>\<open>finalize()\<close>; \<^verbatim>\<open>sha256\<close> is the function imported from the Fuel SDK.\<close>

definition Hasher_finalize :: "(bytes \<Rightarrow> jsstring) \<Rightarrow> ref \<Rightarrow> heap \<Rightarrow> error + jsstring" where
  "Hasher_finalize sha256 this h =
     (case Hasher_getBytes this h of Inl e \<Rightarrow> Inl e | Inr combined \<Rightarrow> Inr (sha256 combined))"

text \<open>\<^verbatim>\<open>reset()\<close> assigns a new empty array to \<^verbatim>\<open>this.buffer\<close>.\<close>

definition Hasher_reset :: "ref \<Rightarrow> heap \<Rightarrow> ref \<times> heap" where
  "Hasher_reset this h =
     (let (b, h1) = new_array [] h
      in (this, h1\<lparr>hashers := (hashers h1)[this := (hashers h1 ! this)\<lparr>buffer := b\<rparr>]\<rparr>))"

text \<open>
  \<^verbatim>\<open>clone()\<close>: a new Hasher with the context of this one, whose buffer is then replaced by a new
  array holding the chunks of \<^verbatim>\<open>this.buffer\<close>.
\<close>

definition Hasher_clone :: "ref \<Rightarrow> heap \<Rightarrow> ref \<times> heap" where
  "Hasher_clone this h =
     (let (newHasher, h1) = Hasher_new (enumContext (hashers h ! this)) h;
          (b, h2) = new_array (arrays h1 ! buffer (hashers h1 ! this)) h1
      in (newHasher, h2\<lparr>hashers := (hashers h2)[newHasher := (hashers h2 ! newHasher)\<lparr>buffer := b\<rparr>]\<rparr>))"

text \<open>
  A Hasher of the program is an address of the heap whose buffer is an address of the heap.
\<close>

definition is_Hasher :: "heap \<Rightarrow> ref \<Rightarrow> bool" where
  "is_Hasher h this \<longleftrightarrow> this < length (hashers h) \<and> buffer (hashers h ! this) < length (arrays h)"

text \<open>The chained calls \<^verbatim>\<open>hasher.update(v1).update(v2)...\<close>, which end at the first that throws.\<close>

fun update_chain :: "jsval list \<Rightarrow> ref \<Rightarrow> heap \<Rightarrow> (error + ref) \<times> heap" where
  "update_chain [] this h = (Inr this, h)"
| "update_chain (v # vs) this h =
     (case Hasher_update v this h of
        (Inl e, h') \<Rightarrow> (Inl e, h')
      | (Inr this', h') \<Rightarrow> update_chain vs this' h')"

text \<open>The expression \<^verbatim>\<open>hasher.update(v1)...update(vn).getBytes()\<close>.\<close>

definition chain_getBytes :: "jsval list \<Rightarrow> ref \<Rightarrow> heap \<Rightarrow> error + bytes" where
  "chain_getBytes vs this h =
     (case update_chain vs this h of
        (Inl e, h') \<Rightarrow> Inl e
      | (Inr this', h') \<Rightarrow> Hasher_getBytes this' h')"

section \<open>The Hasher of \<^verbatim>\<open>src/index.ts\<close>\<close>

text \<open>
  The Hasher of \<^verbatim>\<open>src/index.ts\<close> has the buffer as its only field; its heap holds the arrays and,
  for each Hasher, the address of its buffer.
\<close>

record index_heap =
  index_arrays :: "bytes list list"
  index_hashers :: "ref list"

definition index_new_array :: "bytes list \<Rightarrow> index_heap \<Rightarrow> ref \<times> index_heap" where
  "index_new_array chunks h = (length (index_arrays h), h\<lparr>index_arrays := index_arrays h @ [chunks]\<rparr>)"

definition index_Hasher_new :: "index_heap \<Rightarrow> ref \<times> index_heap" where
  "index_Hasher_new h =
     (let (b, h1) = index_new_array [] h
      in (length (index_hashers h1), h1\<lparr>index_hashers := index_hashers h1 @ [b]\<rparr>))"

definition index_Hasher_update :: "jsval \<Rightarrow> ref \<Rightarrow> index_heap \<Rightarrow> (error + ref) \<times> index_heap" where
  "index_Hasher_update input this h =
     (let b = index_hashers h ! this in
      case index_encodeInputAsBytes input of
        Inl e \<Rightarrow> (Inl e, h)
      | Inr bytes \<Rightarrow>
          (Inr this, h\<lparr>index_arrays := (index_arrays h)[b := index_arrays h ! b @ [bytes]]\<rparr>))"

definition index_Hasher_getBytes :: "ref \<Rightarrow> index_heap \<Rightarrow> error + bytes" where
  "index_Hasher_getBytes this h = concat_chunks (index_arrays h ! (index_hashers h ! this))"

text \<open>\<^verbatim>\<open>digest()\<close> repeats the block of \<^verbatim>\<open>getBytes()\<close> and hashes the result.\<close>

definition index_Hasher_digest :: "(bytes \<Rightarrow> jsstring) \<Rightarrow> ref \<Rightarrow> index_heap \<Rightarrow> error + jsstring" where
  "index_Hasher_digest sha256 this h =
     (case concat_chunks (index_arrays h ! (index_hashers h ! this)) of
        Inl e \<Rightarrow> Inl e
      | Inr combined \<Rightarrow> Inr (sha256 combined))"

definition index_Hasher_reset :: "ref \<Rightarrow> index_heap \<Rightarrow> ref \<times> index_heap" where
  "index_Hasher_reset this h =
     (let (b, h1) = index_new_array [] h
      in (this, h1\<lparr>index_hashers := (index_hashers h1)[this := b]\<rparr>))"

definition index_Hasher_clone :: "ref \<Rightarrow> index_heap \<Rightarrow> ref \<times> index_heap" where
  "index_Hasher_clone this h =
     (let (newHasher, h1) = index_Hasher_new h;
          (b, h2) = index_new_array (index_arrays h1 ! (index_hashers h1 ! this)) h1
      in (newHasher, h2\<lparr>index_hashers := (index_hashers h2)[newHasher := b]\<rparr>))"

definition index_is_Hasher :: "index_heap \<Rightarrow> ref \<Rightarrow> bool" where
  "index_is_Hasher h this \<longleftrightarrow>
     this < length (index_hashers h) \<and> index_hashers h ! this < length (index_arrays h)"

fun index_update_chain :: "jsval list \<Rightarrow> ref \<Rightarrow> index_heap \<Rightarrow> (error + ref) \<times> index_heap" where
  "index_update_chain [] this h = (Inr this, h)"
| "index_update_chain (v # vs) this h =
     (case index_Hasher_update v this h of
        (Inl e, h') \<Rightarrow> (Inl e, h')
      | (Inr this', h') \<Rightarrow> index_update_chain vs this' h')"

definition index_chain_getBytes :: "jsval list \<Rightarrow> ref \<Rightarrow> index_heap \<Rightarrow> error + bytes" where
  "index_chain_getBytes vs this h =
     (case index_update_chain vs this h of
        (Inl e, h') \<Rightarrow> Inl e
      | (Inr this', h') \<Rightarrow> index_Hasher_getBytes this' h')"

section \<open>Notions the properties are stated with\<close>

text \<open>The number that a sequence of bytes denotes, most significant byte first.\<close>

definition be_value :: "bytes \<Rightarrow> nat" where
  "be_value bs = foldl (\<lambda>a b. a * 256 + unat b) 0 bs"

text \<open>A hexadecimal digit and its value.\<close>

definition is_hex_digit :: "code_unit \<Rightarrow> bool" where
  "is_hex_digit c \<longleftrightarrow>
     (0x30 \<le> c \<and> c \<le> 0x39) \<or> (0x41 \<le> c \<and> c \<le> 0x46) \<or> (0x61 \<le> c \<and> c \<le> 0x66)"

definition hex_digit :: "code_unit \<Rightarrow> nat" where
  "hex_digit c =
     (if c \<le> 0x39 then unat c - 0x30 else if c \<le> 0x46 then unat c - 0x41 + 10
      else unat c - 0x61 + 10)"

text \<open>
  The Number whose value is the integer \<open>v\<close>, when \<open>v\<close> is a value of the Number type (every integer
  of magnitude up to \<open>2 ^ 53\<close> is, and \<open>10 ^ 21\<close> is, being \<open>5 ^ 21 * 2 ^ 21\<close> with \<open>5 ^ 21 < 2 ^ 53\<close>):
  its digits without the trailing zeros, and the number of digits of \<open>v\<close>.
\<close>

fun strip_zeros :: "nat \<Rightarrow> nat" where
  "strip_zeros s = (if s \<noteq> 0 \<and> s mod 10 = 0 then strip_zeros (s div 10) else s)"

declare strip_zeros.simps [simp del]

definition Number_of_int :: "int \<Rightarrow> number" where
  "Number_of_int v =
     (if v = 0 then Zero
      else Decimal (v < 0) (strip_zeros (nat \<bar>v\<bar>)) (int (length (digits10 (nat \<bar>v\<bar>)))))"

section \<open>The copying loop is concatenation\<close>

lemma total_size: "foldl (\<lambda>sum b. sum + length b) k chunks = k + length (concat chunks)"
  by (induction chunks arbitrary: k) auto

lemma copy_chunks_concat:
  "offset + length (concat chunks) \<le> length result \<Longrightarrow>
   copy_chunks chunks result offset =
     Inr (take offset result @ concat chunks @ drop (offset + length (concat chunks)) result)"
proof (induction chunks arbitrary: result offset)
  case Nil
  then show ?case by simp
next
  case (Cons b bs)
  let ?r = "take offset result @ b @ drop (offset + length b) result"
  have fit: "offset + length b \<le> length result"
    using Cons.prems by simp
  have len: "length ?r = length result"
    using fit by simp
  have step: "set_at result b offset = Inr ?r"
    using fit by (simp add: set_at_def)
  have "copy_chunks bs ?r (offset + length b) =
          Inr (take (offset + length b) ?r @ concat bs @
               drop (offset + length b + length (concat bs)) ?r)"
    using Cons.prems len by (intro Cons.IH) simp
  moreover have "take (offset + length b) ?r = take offset result @ b"
    using fit by simp
  moreover have "drop (offset + length b + length (concat bs)) ?r =
                   drop (offset + length (concat (b # bs))) result"
    using fit Cons.prems by (simp add: add.assoc add.commute add.left_commute)
  ultimately show ?case
    using step by simp
qed

lemma concat_chunks_eq: "concat_chunks chunks = Inr (concat chunks)"
  by (simp add: concat_chunks_def total_size copy_chunks_concat)

lemma digits10_bound: "d \<in> set (digits10 n) \<Longrightarrow> d < 10"
  by (induction n rule: digits10.induct) (subst (asm) digits10.simps, auto split: if_splits)

lemma digits10_nonempty: "digits10 n \<noteq> []"
  by (subst digits10.simps) simp

lemma digit_char_cases:
  assumes "d < 10"
  shows "digit_char d \<in> set [0x30, 0x31, 0x32, 0x33, 0x34, 0x35, 0x36, 0x37, 0x38, 0x39]"
proof -
  from assms have "d \<in> {0, 1, 2, 3, 4, 5, 6, 7, 8, 9}"
    by auto
  then show ?thesis
    by (auto simp: digit_char_def)
qed

lemma digit_value_digit_char: "d < 10 \<Longrightarrow> digit_value (digit_char d) = Some d"
proof -
  assume "d < 10"
  then have "d \<in> {0, 1, 2, 3, 4, 5, 6, 7, 8, 9}"
    by auto
  then show ?thesis
    by (auto simp: digit_char_def digit_value_def)
qed

lemma digit_char_decimal: "d < 10 \<Longrightarrow> 0x30 \<le> digit_char d \<and> digit_char d \<le> 0x39"
  using digit_char_cases [of d] by auto

lemma digits_value_snoc:
  "digits_value R (s @ [c]) = digits_value R s * R + (case digit_value c of None \<Rightarrow> 0 | Some d \<Rightarrow> d)"
  by (simp add: digits_value_def)

lemma digits_value_decimal: "digits_value 10 (decimal n) = n"
proof (induction n rule: digits10.induct)
  case (1 n)
  show ?case
  proof (cases "n < 10")
    case True
    then show ?thesis
      by (simp add: decimal_def digits10.simps [of n] digits_value_def digit_value_digit_char)
  next
    case False
    with 1 have "digits_value 10 (decimal (n div 10)) = n div 10"
      by simp
    with False show ?thesis
      by (simp add: decimal_def digits10.simps [of n] digits_value_snoc digit_value_digit_char)
  qed
qed

lemma test_decimal_digits_decimal: "test_decimal_digits (decimal n)"
  by (auto simp: test_decimal_digits_def decimal_def digits10_nonempty list_all_iff
      dest!: digits10_bound digit_char_decimal)

text \<open>A string of decimal digits reads as its value.\<close>

lemma decimal_digit_facts:
  assumes "0x30 \<le> c" "c \<le> (0x39 :: code_unit)"
  shows "\<not> is_StrWhiteSpaceChar c" "is_radix_digit 10 c" "c \<noteq> 0x2B" "c \<noteq> 0x2D"
    "c \<noteq> 0x78" "c \<noteq> 0x58" "c \<noteq> 0x6F" "c \<noteq> 0x4F" "c \<noteq> 0x62" "c \<noteq> 0x42"
proof -
  have u: "48 \<le> unat c" "unat c \<le> 57"
    using assms by (simp_all add: word_le_nat_alt)
  show "\<not> is_StrWhiteSpaceChar c"
    using u by (auto simp: is_StrWhiteSpaceChar_def)
  show "is_radix_digit 10 c"
    using assms u by (auto simp: is_radix_digit_def digit_value_def)
  show "c \<noteq> 0x2B" "c \<noteq> 0x2D" "c \<noteq> 0x78" "c \<noteq> 0x58" "c \<noteq> 0x6F" "c \<noteq> 0x4F" "c \<noteq> 0x62" "c \<noteq> 0x42"
    using u by auto
qed

lemma trim_no_space:
  assumes "s \<noteq> []" "\<not> is_StrWhiteSpaceChar (hd s)" "\<not> is_StrWhiteSpaceChar (last s)"
  shows "trim s = s"
proof -
  have "dropWhile is_StrWhiteSpaceChar s = s"
    using assms by (simp add: dropWhile_eq_self_iff)
  moreover have "dropWhile is_StrWhiteSpaceChar (rev s) = rev s"
    using assms by (simp add: dropWhile_eq_self_iff hd_rev)
  ultimately show ?thesis
    by (simp add: trim_def)
qed

lemma StringToBigInt_digits:
  assumes "test_decimal_digits s"
  shows "StringToBigInt s = Some (int (digits_value 10 s))"
proof -
  from assms have ne: "s \<noteq> []" and all: "\<forall>c \<in> set s. 0x30 \<le> c \<and> c \<le> 0x39"
    by (auto simp: test_decimal_digits_def list_all_iff)
  have "hd s \<in> set s" "last s \<in> set s"
    using ne by simp_all
  with all have h: "0x30 \<le> hd s" "hd s \<le> 0x39" and l: "0x30 \<le> last s" "last s \<le> 0x39"
    by auto
  have t: "trim s = s"
    using ne decimal_digit_facts(1) [OF h] decimal_digit_facts(1) [OF l] by (rule trim_no_space)
  have second: "length s \<ge> 2 \<Longrightarrow> 0x30 \<le> s ! 1 \<and> s ! 1 \<le> 0x39"
    using all by (auto simp: all_set_conv_all_nth)
  have no_prefix: "take 2 s \<noteq> [a, b]" if "b \<in> {0x78, 0x58, 0x6F, 0x4F, 0x62, 0x42}" for a b
  proof
    assume eq: "take 2 s = [a, b]"
    then have "length s \<ge> 2"
      by (cases s; cases "tl s") auto
    moreover from eq have "s ! 1 = b"
      by (cases s; cases "tl s") auto
    ultimately show False
      using second that decimal_digit_facts(5-10) [of "s ! 1"] by auto
  qed
  have p: "parse_digits 10 s = Some (digits_value 10 s)"
    using ne all decimal_digit_facts(2) by (auto simp: parse_digits_def list_all_iff)
  show ?thesis
    using ne t p no_prefix decimal_digit_facts(3,4) [OF h]
    by (simp add: StringToBigInt_def js_def)
qed

lemma StringToBigInt_minus_digits:
  assumes "test_decimal_digits s"
  shows "StringToBigInt (0x2D # s) = Some (- int (digits_value 10 s))"
proof -
  from assms have ne: "s \<noteq> []" and all: "\<forall>c \<in> set s. 0x30 \<le> c \<and> c \<le> 0x39"
    by (auto simp: test_decimal_digits_def list_all_iff)
  have "last s \<in> set s" "hd s \<in> set s"
    using ne by simp_all
  with all have l: "0x30 \<le> last s" "last s \<le> 0x39" and h: "0x30 \<le> hd s" "hd s \<le> 0x39"
    by auto
  have "\<not> is_StrWhiteSpaceChar (0x2D :: code_unit)"
    by (simp add: is_StrWhiteSpaceChar_def)
  then have t: "trim (0x2D # s) = 0x2D # s"
    using ne decimal_digit_facts(1) [OF l] by (intro trim_no_space) simp_all
  have p: "parse_digits 10 s = Some (digits_value 10 s)"
    using ne all decimal_digit_facts(2) by (auto simp: parse_digits_def list_all_iff)
  show ?thesis
    using ne t p by (simp add: StringToBigInt_def js_def)
qed

lemma BigInt_BigInt_toString: "BigInt (BigInt_toString v) = Inr v"
proof (cases "v < 0")
  case True
  then show ?thesis
    using StringToBigInt_minus_digits [OF test_decimal_digits_decimal, of "nat (- v)"]
    by (simp add: BigInt_def BigInt_toString_def digits_value_decimal js_def)
next
  case False
  then show ?thesis
    using StringToBigInt_digits [OF test_decimal_digits_decimal, of "nat v"]
    by (simp add: BigInt_def BigInt_toString_def digits_value_decimal)
qed

lemma upt_0_8: "[0..<8] = [0, 1, 2, 3, 4, 5, 6, 7]"
  by code_simp

lemma unat_byte_of: "unat (ucast (drop_bit k (w :: 64 word)) :: byte) = unat w div 2 ^ k mod 256"
  unfolding unsigned_ucast_eq unat_drop_bit_eq by (simp add: take_bit_eq_mod drop_bit_eq_div)

lemma unat_drop_bit_div: "unat (drop_bit k (w :: 64 word)) = unat w div 2 ^ k"
  unfolding unat_drop_bit_eq by (simp add: drop_bit_eq_div)

lemma unat_byte_low: "unat (ucast (w :: 64 word) :: byte) = unat w mod 256"
  using unat_byte_of [of 0 w] by simp

lemma be_step: "(x::nat) div (m * 256) * 256 + x div m mod 256 = x div m"
  by (simp add: div_mult2_eq)

lemma be_split: 
  fixes x :: nat
  assumes "x < 2 ^ 64"
  shows "((((((x div 2 ^ 56 mod 256 * 256 + x div 2 ^ 48 mod 256) * 256 + x div 2 ^ 40 mod 256) * 256
            + x div 2 ^ 32 mod 256) * 256 + x div 2 ^ 24 mod 256) * 256 + x div 2 ^ 16 mod 256) * 256
            + x div 2 ^ 8 mod 256) * 256 + x mod 256 = x"
proof -
  have "x div 2 ^ 56 < 256"
    using assms by (simp add: less_mult_imp_div_less)
  then have s7: "x div 2 ^ 56 mod 256 = x div 2 ^ 56"
    by simp
  have s6: "x div 2 ^ 56 * 256 + x div 2 ^ 48 mod 256 = x div 2 ^ 48"
    using be_step [of x "2 ^ 48"] by simp
  have s5: "x div 2 ^ 48 * 256 + x div 2 ^ 40 mod 256 = x div 2 ^ 40"
    using be_step [of x "2 ^ 40"] by simp
  have s4: "x div 2 ^ 40 * 256 + x div 2 ^ 32 mod 256 = x div 2 ^ 32"
    using be_step [of x "2 ^ 32"] by simp
  have s3: "x div 2 ^ 32 * 256 + x div 2 ^ 24 mod 256 = x div 2 ^ 24"
    using be_step [of x "2 ^ 24"] by simp
  have s2: "x div 2 ^ 24 * 256 + x div 2 ^ 16 mod 256 = x div 2 ^ 16"
    using be_step [of x "2 ^ 16"] by simp
  have s1: "x div 2 ^ 16 * 256 + x div 2 ^ 8 mod 256 = x div 2 ^ 8"
    using be_step [of x "2 ^ 8"] by simp
  have s0: "x div 2 ^ 8 * 256 + x mod 256 = x"
    by simp
  show ?thesis
    unfolding s7 s6 s5 s4 s3 s2 s1 s0 ..
qed

lemma setBigUint64_length: "length (setBigUint64 v) = 8"
  by (simp add: setBigUint64_def)

lemma be_value_setBigUint64: "be_value (setBigUint64 v) = nat (v mod 2 ^ 64)"
proof -
  let ?w = "of_int v :: 64 word"
  have "unat ?w < 2 ^ 64"
    using unsigned_less [of ?w, where 'a = nat] by simp
  then have "be_value (setBigUint64 v) = unat ?w"
    using be_split [of "unat ?w"]
    by (simp add: be_value_def setBigUint64_def upt_0_8 unat_drop_bit_div unat_byte_low Let_def)
  also have "\<dots> = nat (v mod 2 ^ 64)"
    by (simp add: unat_eq_nat_uint uint_word_of_int)
  finally show ?thesis .
qed

lemma encode_each_append:
  "encode_each (xs @ ys) ctx =
     (case encode_each xs ctx of
        Inl e \<Rightarrow> Inl e
      | Inr bs \<Rightarrow> (case encode_each ys ctx of Inl e \<Rightarrow> Inl e | Inr cs \<Rightarrow> Inr (bs @ cs)))"
  by (induction xs) (auto split: sum.splits)

lemma Hasher_getBytes_eq:
  "Hasher_getBytes this h = Inr (concat (arrays h ! buffer (hashers h ! this)))"
  by (simp add: Hasher_getBytes_def concat_chunks_eq)

lemma Hasher_update_Inl:
  "fst (Hasher_update input this h) = Inl e \<Longrightarrow> snd (Hasher_update input this h) = h"
  by (auto simp: Hasher_update_def Let_def split: sum.splits)

lemma Hasher_update_hashers [simp]: "hashers (snd (Hasher_update input this h)) = hashers h"
  by (simp add: Hasher_update_def Let_def split: sum.splits)

lemma Hasher_update_length [simp]:
  "length (arrays (snd (Hasher_update input this h))) = length (arrays h)"
  by (simp add: Hasher_update_def Let_def split: sum.splits)

lemma Hasher_update_is_Hasher [simp]:
  "is_Hasher (snd (Hasher_update input this h)) a = is_Hasher h a"
  by (simp add: is_Hasher_def)

lemma Hasher_update_other:
  "b \<noteq> buffer (hashers h ! this) \<Longrightarrow> arrays (snd (Hasher_update input this h)) ! b = arrays h ! b"
  by (simp add: Hasher_update_def Let_def split: sum.splits)

lemma Hasher_update_Inr:
  assumes "is_Hasher h this"
    and "encodeInputAsBytes input (enumContext (hashers h ! this)) = Inr bytes"
  shows "fst (Hasher_update input this h) = Inr this"
    and "arrays (snd (Hasher_update input this h)) ! buffer (hashers h ! this) =
           arrays h ! buffer (hashers h ! this) @ [bytes]"
  using assms by (simp_all add: Hasher_update_def Let_def is_Hasher_def)

lemma update_chain_hashers [simp]: "hashers (snd (update_chain vs this h)) = hashers h"
proof (induction vs arbitrary: this h)
  case Nil
  show ?case by simp
next
  case (Cons v vs)
  obtain r h' where u: "Hasher_update v this h = (r, h')"
    by (cases "Hasher_update v this h")
  have "hashers h' = hashers h"
    using Hasher_update_hashers [of v this h] u by simp
  with u Cons.IH show ?case
    by (cases r) simp_all
qed

lemma Hasher_update_Inr_ex:
  assumes "is_Hasher h this"
    and "encodeInputAsBytes input (enumContext (hashers h ! this)) = Inr bytes"
  obtains h' where "Hasher_update input this h = (Inr this, h')"
    and "is_Hasher h' this" and "hashers h' = hashers h"
    and "arrays h' ! buffer (hashers h ! this) = arrays h ! buffer (hashers h ! this) @ [bytes]"
proof
  let ?h' = "snd (Hasher_update input this h)"
  show "Hasher_update input this h = (Inr this, ?h')"
    using Hasher_update_Inr(1) [OF assms] by (simp add: prod_eq_iff)
  show "is_Hasher ?h' this"
    using assms(1) by simp
  show "hashers ?h' = hashers h"
    by simp
  show "arrays ?h' ! buffer (hashers h ! this) = arrays h ! buffer (hashers h ! this) @ [bytes]"
    by (rule Hasher_update_Inr(2) [OF assms])
qed

lemma update_chain_result:
  assumes "is_Hasher h this"
  shows "fst (update_chain vs this h) =
           (case encode_each vs (enumContext (hashers h ! this)) of Inl e \<Rightarrow> Inl e | Inr bs \<Rightarrow> Inr this)"
    and "encode_each vs (enumContext (hashers h ! this)) = Inr bs \<Longrightarrow>
           arrays (snd (update_chain vs this h)) ! buffer (hashers h ! this) =
             arrays h ! buffer (hashers h ! this) @ bs"
  using assms
proof (induction vs arbitrary: h bs)
  case Nil
  { case 1 show ?case by simp }
  { case 2 then show ?case by simp }
next
  case (Cons v vs)
  { case 1
    show ?case
    proof (cases "encodeInputAsBytes v (enumContext (hashers h ! this))")
      case (Inl e)
      then show ?thesis
        by (simp add: Hasher_update_def Let_def)
    next
      case (Inr b)
      from 1 Inr obtain h' where u: "Hasher_update v this h = (Inr this, h')"
        and h': "is_Hasher h' this" "hashers h' = hashers h"
        by (rule Hasher_update_Inr_ex)
      from Cons.IH(1) [OF h'(1)] u Inr h'(2) show ?thesis
        by (simp split: sum.splits)
    qed }
  { case 2
    from 2(1) obtain b bs' where b: "encodeInputAsBytes v (enumContext (hashers h ! this)) = Inr b"
      and bs': "encode_each vs (enumContext (hashers h ! this)) = Inr bs'" and bs: "bs = b # bs'"
      by (auto split: sum.splits)
    from 2(2) b obtain h' where u: "Hasher_update v this h = (Inr this, h')"
      and h': "is_Hasher h' this" "hashers h' = hashers h"
      and a: "arrays h' ! buffer (hashers h ! this) = arrays h ! buffer (hashers h ! this) @ [b]"
      by (rule Hasher_update_Inr_ex)
    from Cons.IH(2) [OF _ h'(1), of bs'] bs' u h'(2) a bs
    show ?case
      by simp }
qed

lemma Hasher_new_facts:
  assumes "Hasher_new ctx h = (a, h0)"
  shows "is_Hasher h0 a" "enumContext (hashers h0 ! a) = ctx" "arrays h0 ! buffer (hashers h0 ! a) = []"
    "a = length (hashers h)" "buffer (hashers h0 ! a) = length (arrays h)"
  using assms by (auto simp: Hasher_new_def new_array_def is_Hasher_def Let_def nth_append)

lemma chain_getBytes_eq:
  assumes "is_Hasher h this"
  shows "chain_getBytes vs this h =
     (case encode_each vs (enumContext (hashers h ! this)) of
        Inl e \<Rightarrow> Inl e
      | Inr bs \<Rightarrow> Inr (concat (arrays h ! buffer (hashers h ! this)) @ concat bs))"
proof (cases "encode_each vs (enumContext (hashers h ! this))")
  case (Inl e)
  with update_chain_result(1) [OF assms, of vs] have "fst (update_chain vs this h) = Inl e"
    by simp
  then show ?thesis
    using Inl by (cases "update_chain vs this h") (simp add: chain_getBytes_def)
next
  case (Inr bs)
  with update_chain_result(1) [OF assms, of vs] have f: "fst (update_chain vs this h) = Inr this"
    by simp
  have "arrays (snd (update_chain vs this h)) ! buffer (hashers h ! this) =
          arrays h ! buffer (hashers h ! this) @ bs"
    using update_chain_result(2) [OF assms Inr] .
  then have "Hasher_getBytes this (snd (update_chain vs this h)) =
          Inr (concat (arrays h ! buffer (hashers h ! this)) @ concat bs)"
    by (simp add: Hasher_getBytes_eq)
  then show ?thesis
    using f Inr by (cases "update_chain vs this h") (simp add: chain_getBytes_def)
qed

lemma encodeMultipleInputs_plain:
  assumes "args = [] \<or> \<not> is_enum_context (last args)"
  shows "encodeMultipleInputs args =
     (case encode_each args None of Inl e \<Rightarrow> Inl e | Inr argBytes \<Rightarrow> Inr (concat argBytes))"
  using assms by (auto simp: encodeMultipleInputs_def concat_chunks_eq split: sum.splits)

lemma encodeMultipleInputs_context:
  assumes "is_enum_context c"
  shows "encodeMultipleInputs (args @ [c]) =
     (case encode_each args (Some (as_enum_context c)) of
        Inl e \<Rightarrow> Inl e
      | Inr argBytes \<Rightarrow> Inr (concat argBytes))"
  using assms by (auto simp: encodeMultipleInputs_def concat_chunks_eq split: sum.splits)

lemma digits10_strip_zeros: "m \<noteq> 0 \<Longrightarrow> \<exists>z. digits10 m = digits10 (strip_zeros m) @ replicate z 0"
proof (induction m rule: strip_zeros.induct)
  case (1 m)
  show ?case
  proof (cases "m mod 10 = 0")
    case True
    with 1(2) have m: "\<not> m < 10" "m div 10 \<noteq> 0"
      by auto
    from 1(1) 1(2) True m obtain z where z: "digits10 (m div 10) = digits10 (strip_zeros (m div 10)) @ replicate z 0"
      by auto
    have "strip_zeros m = strip_zeros (m div 10)"
      using 1(2) True by (subst strip_zeros.simps) simp
    moreover have "digits10 m = digits10 (m div 10) @ [0]"
      using m True by (subst digits10.simps) simp
    ultimately have "digits10 m = digits10 (strip_zeros m) @ replicate (Suc z) 0"
      using z by (simp add: replicate_append_same)
    then show ?thesis ..
  next
    case False
    then have "strip_zeros m = m"
      by (subst strip_zeros.simps) simp
    then have "digits10 m = digits10 (strip_zeros m) @ replicate 0 0"
      by simp
    then show ?thesis ..
  qed
qed

lemma digits10_upper: "m < 10 ^ length (digits10 m)"
proof (induction m rule: digits10.induct)
  case (1 m)
  show ?case
  proof (cases "m < 10")
    case True
    then show ?thesis by (subst digits10.simps) simp
  next
    case False
    with 1 have "m div 10 < 10 ^ length (digits10 (m div 10))"
      by simp
    then have "m < 10 * 10 ^ length (digits10 (m div 10))"
      by (simp add: less_mult_imp_div_less mult.commute)
    with False show ?thesis
      by (subst digits10.simps) simp
  qed
qed

lemma digits10_lower: "m \<noteq> 0 \<Longrightarrow> 10 ^ (length (digits10 m) - 1) \<le> m"
proof (induction m rule: digits10.induct)
  case (1 m)
  show ?case
  proof (cases "m < 10")
    case True
    with 1(2) show ?thesis by (subst digits10.simps) simp
  next
    case False
    then have "m div 10 \<noteq> 0"
      by auto
    with 1(1) False have "10 ^ (length (digits10 (m div 10)) - 1) \<le> m div 10"
      by simp
    then have "10 * 10 ^ (length (digits10 (m div 10)) - 1) \<le> m"
      by (metis div_times_less_eq_dividend mult.commute mult_le_mono2 order_trans)
    moreover have "length (digits10 (m div 10)) \<noteq> 0"
      using digits10_nonempty by simp
    ultimately show ?thesis
      using False by (subst digits10.simps) (cases "length (digits10 (m div 10))"; simp)
  qed
qed

lemma length_digits10_le: "m < 10 ^ d \<Longrightarrow> 0 < d \<Longrightarrow> length (digits10 m) \<le> d"
proof (rule ccontr)
  assume m: "m < 10 ^ d" and d: "0 < d" and "\<not> length (digits10 m) \<le> d"
  then have l: "d \<le> length (digits10 m) - 1"
    by simp
  have "m \<noteq> 0"
  proof
    assume "m = 0"
    then have "length (digits10 m) = 1"
      by (subst digits10.simps) simp
    with l d show False by simp
  qed
  then have "(10::nat) ^ (length (digits10 m) - 1) \<le> m"
    by (rule digits10_lower)
  moreover have "(10::nat) ^ d \<le> 10 ^ (length (digits10 m) - 1)"
    using l by (simp add: power_increasing)
  ultimately show False
    using m by linarith
qed

lemma length_digits10_gt: "10 ^ d \<le> m \<Longrightarrow> d < length (digits10 m)"
proof (rule ccontr)
  assume m: "10 ^ d \<le> m" and "\<not> d < length (digits10 m)"
  then have "(10::nat) ^ length (digits10 m) \<le> 10 ^ d"
    by (simp add: power_increasing)
  with digits10_upper [of m] m show False
    by linarith
qed

lemma digits_value_zeros: "digits_value 10 (s @ replicate z 0x30) = digits_value 10 s * 10 ^ z"
proof (induction z)
  case 0
  show ?case by simp
next
  case (Suc z)
  have "s @ replicate (Suc z) 0x30 = (s @ replicate z 0x30) @ [0x30]"
    by (simp add: replicate_append_same)
  then show ?case
    using Suc by (simp only: digits_value_snoc) (simp add: digit_value_def)
qed

lemma decimal_no_space:
  "decimal n \<noteq> []" "\<not> is_StrWhiteSpaceChar (hd (decimal n))" "\<not> is_StrWhiteSpaceChar (last (decimal n))"
proof -
  have t: "decimal n \<noteq> []" "\<forall>c \<in> set (decimal n). 0x30 \<le> c \<and> c \<le> 0x39"
    using test_decimal_digits_decimal [of n] by (auto simp: test_decimal_digits_def list_all_iff)
  show "decimal n \<noteq> []" by fact
  have "hd (decimal n) \<in> set (decimal n)" "last (decimal n) \<in> set (decimal n)"
    using t(1) by simp_all
  with t(2) show "\<not> is_StrWhiteSpaceChar (hd (decimal n))" "\<not> is_StrWhiteSpaceChar (last (decimal n))"
    using decimal_digit_facts(1) by blast+
qed

lemma parse_digits_bad: "c \<in> set s \<Longrightarrow> digit_value c = None \<Longrightarrow> parse_digits R s = None"
  by (fastforce simp: parse_digits_def list_all_iff is_radix_digit_def)

lemma StringToBigInt_bad:
  assumes "t \<noteq> []" "\<not> is_StrWhiteSpaceChar (hd t)" "\<not> is_StrWhiteSpaceChar (last t)"
    and i: "1 \<le> i" "i < length t" and bad: "digit_value (t ! i) = None"
  shows "StringToBigInt t = None"
proof -
  have trim: "trim t = t"
    using assms(1-3) by (rule trim_no_space)
  have in_t: "t ! i \<in> set t"
    using i by simp
  have "tl t ! (i - 1) = t ! i" "i - 1 < length (tl t)"
    using i by (simp_all add: nth_tl)
  then have in_tl: "t ! i \<in> set (tl t)"
    by (metis nth_mem)
  have in_drop: "t ! i \<in> set (drop 2 t)" if "take 2 t = [a, b]" "digit_value b \<noteq> None" for a b
  proof -
    from that(1) have "t ! 1 = b"
      by (cases t; cases "tl t") auto
    with that(2) bad have "i \<noteq> 1"
      by auto
    with i have i2: "2 \<le> i"
      by simp
    then have "2 + (i - 2) = i"
      by simp
    with i i2 have "drop 2 t ! (i - 2) = t ! i" "i - 2 < length (drop 2 t)"
      by (simp_all add: nth_drop del: One_nat_def)
    then show ?thesis
      by (metis nth_mem)
  qed
  have d: "digit_value (0x78 :: code_unit) \<noteq> None" "digit_value (0x58 :: code_unit) \<noteq> None"
    "digit_value (0x6F :: code_unit) \<noteq> None" "digit_value (0x4F :: code_unit) \<noteq> None"
    "digit_value (0x62 :: code_unit) \<noteq> None" "digit_value (0x42 :: code_unit) \<noteq> None"
    by (simp_all add: digit_value_def)
  have p: "parse_digits R (drop 2 t) = None" if "take 2 t = [a, b]" "digit_value b \<noteq> None" for a b R
    using in_drop [OF that] bad by (rule parse_digits_bad)
  show ?thesis
    using assms(1) parse_digits_bad [OF in_t bad] parse_digits_bad [OF in_tl bad] p d
    by (simp add: StringToBigInt_def trim js_def)
qed

lemma StringToBigInt_bad_infix:
  assumes "p \<noteq> []" "\<not> is_StrWhiteSpaceChar (hd p)" "digit_value c = None"
    "q \<noteq> []" "\<not> is_StrWhiteSpaceChar (last q)"
  shows "StringToBigInt (p @ c # q) = None" "StringToBigInt (0x2D # p @ c # q) = None"
proof -
  show "StringToBigInt (p @ c # q) = None"
    using assms by (intro StringToBigInt_bad [where i = "length p"]) (auto simp: Suc_le_eq)
  have "\<not> is_StrWhiteSpaceChar (0x2D :: code_unit)"
    by (simp add: is_StrWhiteSpaceChar_def)
  then show "StringToBigInt (0x2D # p @ c # q) = None"
    using assms by (intro StringToBigInt_bad [where i = "Suc (length p)"]) (auto simp: nth_append)
qed

lemma digit_value_bad:
  "digit_value (0x2E :: code_unit) = None" "digit_value (0x2B :: code_unit) = None"
  "digit_value (0x2D :: code_unit) = None"
  by (simp_all add: digit_value_def)

lemma hd_take_decimal: "0 < n \<Longrightarrow> hd (take n (decimal s)) = hd (decimal s)"
  by (cases "decimal s"; cases n) simp_all

lemma zero_no_space: "\<not> is_StrWhiteSpaceChar (0x30 :: code_unit)"
  by (simp add: is_StrWhiteSpaceChar_def)

text \<open>A number prints as a plain integer exactly when \<open>k \<le> n \<le> 21\<close>.\<close>

lemma Number_toString_positive_integer:
  assumes "int (length (digits10 s)) \<le> n" "n \<le> 21"
  shows "Number_toString_positive s n = decimal s @ replicate (nat (n - int (length (digits10 s)))) 0x30"
  using assms by (simp add: Number_toString_positive_def decimal_def Let_def)

lemma test_decimal_digits_zeros: "test_decimal_digits (decimal s @ replicate z 0x30)"
  using test_decimal_digits_decimal [of s] by (auto simp: test_decimal_digits_def list_all_iff)

lemma BigInt_Number_integer:
  assumes "int (length (digits10 s)) \<le> n" "n \<le> 21"
  shows "BigInt (Number_toString (Decimal negative s n)) =
           Inr ((if negative then - 1 else 1) * int s * 10 ^ nat (n - int (length (digits10 s))))"
proof -
  let ?z = "nat (n - int (length (digits10 s)))"
  let ?str = "decimal s @ replicate ?z 0x30"
  have v: "digits_value 10 ?str = s * 10 ^ ?z"
    by (simp add: digits_value_zeros digits_value_decimal)
  show ?thesis
  proof (cases negative)
    case True
    then show ?thesis
      using StringToBigInt_minus_digits [OF test_decimal_digits_zeros, of s ?z] v
      by (simp add: Number_toString_positive_integer [OF assms] BigInt_def js_def)
  next
    case False
    then show ?thesis
      using StringToBigInt_digits [OF test_decimal_digits_zeros, of s ?z] v
      by (simp add: Number_toString_positive_integer [OF assms] BigInt_def)
  qed
qed

lemma Number_toString_positive_other:
  assumes "\<not> (int (length (digits10 s)) \<le> n \<and> n \<le> 21)"
  shows "\<exists>p c q. Number_toString_positive s n = p @ c # q \<and> p \<noteq> [] \<and> \<not> is_StrWhiteSpaceChar (hd p)
           \<and> digit_value c = None \<and> q \<noteq> [] \<and> \<not> is_StrWhiteSpaceChar (last q)"
proof -
  let ?ds = "decimal s"
  let ?k = "int (length ?ds)"
  have k: "?k = int (length (digits10 s))"
    by (simp add: decimal_def)
  note ds = decimal_no_space [of s]
  consider (point) "0 < n" "n \<le> 21" "n < ?k"
    | (small) "- 6 < n" "n \<le> 0"
    | (exp1) "\<not> (0 < n \<and> n \<le> 21)" "\<not> (- 6 < n \<and> n \<le> 0)" "?k = 1"
    | (expk) "\<not> (0 < n \<and> n \<le> 21)" "\<not> (- 6 < n \<and> n \<le> 0)" "?k \<noteq> 1"
    using assms k by linarith
  then show ?thesis
  proof cases
    case point
    let ?p = "take (nat n) ?ds" and ?q = "drop (nat n) ?ds"
    have "Number_toString_positive s n = ?p @ 0x2E # ?q"
      using point by (simp add: Number_toString_positive_def Let_def js_def)
    moreover have "?p \<noteq> []" "?q \<noteq> []"
      using point ds(1) by auto
    moreover have "hd ?p = hd ?ds" "last ?q = last ?ds"
      using point by (simp_all add: hd_take_decimal)
    ultimately show ?thesis
      using ds digit_value_bad(1) by metis
  next
    case small
    let ?q = "replicate (nat (- n)) 0x30 @ ?ds"
    have "\<not> ?k \<le> n"
      using ds(1) small by (cases "decimal s") simp_all
    then have "Number_toString_positive s n = [0x30] @ 0x2E # ?q"
      using small by (simp add: Number_toString_positive_def Let_def js_def)
    moreover have "?q \<noteq> []" "last ?q = last ?ds" "hd [0x30 :: code_unit] = 0x30"
      using ds(1) by simp_all
    ultimately show ?thesis
      using ds zero_no_space digit_value_bad(1) by (metis not_Cons_self2)
  next
    case exp1
    let ?e = "n - 1"
    let ?p = "?ds @ [0x65]" and ?q = "decimal (nat \<bar>?e\<bar>)"
    let ?c = "if ?e < 0 then 0x2D else 0x2B :: code_unit"
    have "Number_toString_positive s n = ?p @ ?c # ?q"
      using exp1 by (auto simp add: Number_toString_positive_def Let_def js_def)
    moreover have "?p \<noteq> []" "hd ?p = hd ?ds" "digit_value ?c = None"
      using ds(1) digit_value_bad by simp_all
    ultimately show ?thesis
      using ds(2) decimal_no_space [of "nat \<bar>?e\<bar>"] by metis
  next
    case expk
    let ?e = "n - 1"
    let ?x = "js (if ?e < 0 then ''-'' else ''+'') @ decimal (nat \<bar>?e\<bar>)"
    let ?p = "take 1 ?ds" and ?q = "drop 1 ?ds @ [0x65] @ ?x"
    have "\<not> (?k \<le> n \<and> n \<le> 21)"
      using assms k by simp
    then have "Number_toString_positive s n = ?p @ 0x2E # ?q"
      using expk by (auto simp add: Number_toString_positive_def Let_def js_def)
    moreover have "?p \<noteq> []" "hd ?p = hd ?ds" "?q \<noteq> []"
      using ds(1) by (simp_all add: hd_take_decimal)
    moreover have "last ?q = last (decimal (nat \<bar>?e\<bar>))"
      using decimal_no_space(1) [of "nat \<bar>?e\<bar>"] by simp
    ultimately show ?thesis
      using ds(2) decimal_no_space(3) [of "nat \<bar>?e\<bar>"] digit_value_bad(1) by metis
  qed
qed

lemma BigInt_Number_other:
  assumes "\<not> (int (length (digits10 s)) \<le> n \<and> n \<le> 21)"
  shows "BigInt (Number_toString (Decimal negative s n)) = Inl SyntaxError"
proof -
  from Number_toString_positive_other [OF assms] obtain p c q
    where "Number_toString_positive s n = p @ c # q" "p \<noteq> []" "\<not> is_StrWhiteSpaceChar (hd p)"
      "digit_value c = None" "q \<noteq> []" "\<not> is_StrWhiteSpaceChar (last q)"
    by blast
  then show ?thesis
    using StringToBigInt_bad_infix [of p c q]
    by (simp add: BigInt_def js_def)
qed

lemma BigInt_Number_special:
  "BigInt (Number_toString NaN) = Inl SyntaxError"
  "BigInt (Number_toString (Infinity negative)) = Inl SyntaxError"
  "BigInt (Number_toString Zero) = Inr 0"
  by (simp_all add: BigInt_def StringToBigInt_def js_def trim_def is_StrWhiteSpaceChar_def
      parse_digits_def is_radix_digit_def digit_value_def digits_value_def)

lemma Number_of_int_integer:
  assumes "\<bar>v\<bar> < 10 ^ 21"
  shows "BigInt (Number_toString (Number_of_int v)) = Inr v"
proof (cases "v = 0")
  case True
  then show ?thesis
    using BigInt_Number_special(3) by (simp add: Number_of_int_def)
next
  case False
  let ?m = "nat \<bar>v\<bar>"
  have m: "?m \<noteq> 0" "?m < 10 ^ 21"
    using False assms by (simp_all add: nat_less_iff)
  from digits10_strip_zeros [OF m(1)] obtain z
    where z: "digits10 ?m = digits10 (strip_zeros ?m) @ replicate z 0"
    by blast
  let ?s = "strip_zeros ?m" and ?n = "int (length (digits10 ?m))"
  have "length (digits10 ?m) = length (digits10 ?s) + z"
    using arg_cong [OF z, of length] by simp
  moreover have "length (digits10 ?m) \<le> 21"
    using length_digits10_le [OF m(2)] by simp
  ultimately have n: "int (length (digits10 ?s)) \<le> ?n" "?n \<le> 21"
    and zz: "nat (?n - int (length (digits10 ?s))) = z"
    by simp_all
  have "int ?s * 10 ^ z = int ?m"
  proof -
    have "?m = digits_value 10 (decimal ?m)"
      by (simp add: digits_value_decimal)
    also have "decimal ?m = decimal ?s @ replicate z 0x30"
      using z by (simp add: decimal_def digit_char_def)
    also have "digits_value 10 \<dots> = ?s * 10 ^ z"
      by (simp add: digits_value_zeros digits_value_decimal)
    finally show ?thesis
      by (metis of_nat_mult of_nat_power of_nat_numeral)
  qed
  then show ?thesis
    using False BigInt_Number_integer [OF n, of "v < 0"] zz
    by (auto simp: Number_of_int_def)
qed

lemma Number_of_int_large:
  assumes "10 ^ 21 \<le> \<bar>v\<bar>"
  shows "BigInt (Number_toString (Number_of_int v)) = Inl SyntaxError"
proof -
  let ?m = "nat \<bar>v\<bar>"
  have "10 ^ 21 \<le> ?m"
    using assms by (simp add: le_nat_iff)
  then have "21 < length (digits10 ?m)"
    by (rule length_digits10_gt)
  moreover have "v \<noteq> 0"
    using assms by auto
  ultimately show ?thesis
    using BigInt_Number_other [of "strip_zeros ?m" "int (length (digits10 ?m))" "v < 0"]
    by (simp add: Number_of_int_def)
qed

lemma hex_digit_facts:
  assumes "is_hex_digit c"
  shows "\<not> is_StrWhiteSpaceChar c" "c \<noteq> 0x2B" "c \<noteq> 0x2D" "c \<noteq> 0x78" "c \<noteq> 0x58"
    "digit_value c = Some (hex_digit c)" "hex_digit c < 16"
proof -
  have u: "(48 \<le> unat c \<and> unat c \<le> 57) \<or> (65 \<le> unat c \<and> unat c \<le> 70)
      \<or> (97 \<le> unat c \<and> unat c \<le> 102)"
    using assms by (simp add: is_hex_digit_def word_le_nat_alt)
  show "\<not> is_StrWhiteSpaceChar c"
    using u by (auto simp: is_StrWhiteSpaceChar_def)
  show "c \<noteq> 0x2B" "c \<noteq> 0x2D" "c \<noteq> 0x78" "c \<noteq> 0x58"
    using u by auto
  show "digit_value c = Some (hex_digit c)"
    using u by (auto simp: digit_value_def hex_digit_def word_le_nat_alt)
  show "hex_digit c < 16"
    using u by (auto simp: hex_digit_def word_le_nat_alt)
qed

lemma parseInt_hex_pair:
  assumes "is_hex_digit a" "is_hex_digit b"
  shows "parseInt [a, b] 16 = Some (int (16 * hex_digit a + hex_digit b))"
proof -
  note fa = hex_digit_facts [OF assms(1)] and fb = hex_digit_facts [OF assms(2)]
  have S: "dropWhile is_StrWhiteSpaceChar [a, b] = [a, b]"
    using fa(1) by simp
  have pre: "\<not> (take 2 [a, b] = js ''0x'' \<or> take 2 [a, b] = js ''0X'')"
    using fb(4,5) by (simp add: js_def)
  have Z: "takeWhile (is_radix_digit 16) [a, b] = [a, b]"
    using fa(6,7) fb(6,7) by (simp add: is_radix_digit_def)
  have v: "digits_value 16 [a, b] = 16 * hex_digit a + hex_digit b"
    using fa(6) fb(6) by (simp add: digits_value_def)
  show ?thesis
    unfolding parseInt_def Let_def S
    using fa(2,3) pre Z v by simp
qed

lemma ToUint8_small: "n < 256 \<Longrightarrow> unat (ToUint8 (Some (int n))) = n"
  by (simp add: ToUint8_def unat_of_nat)

lemma substr_pair: "Suc k < length s \<Longrightarrow> substr s k 2 = [s ! k, s ! Suc k]"
proof -
  assume k: "Suc k < length s"
  then have "drop k s = s ! k # s ! Suc k # drop (Suc (Suc k)) s"
    by (simp add: Cons_nth_drop_Suc Suc_lessD)
  then show ?thesis
    by (simp add: substr_def)
qed

lemma b256_bytes_length: "length (b256_bytes input) = 32"
  by (simp add: b256_bytes_def)

lemma b256_bytes_nth:
  assumes "length input = 66" "i < 32"
    and "is_hex_digit (drop 2 input ! (2 * i))" "is_hex_digit (drop 2 input ! (2 * i + 1))"
  shows "unat (b256_bytes input ! i) =
           16 * hex_digit (drop 2 input ! (2 * i)) + hex_digit (drop 2 input ! (2 * i + 1))"
proof -
  let ?hexStr = "drop 2 input"
  let ?v = "16 * hex_digit (?hexStr ! (2 * i)) + hex_digit (?hexStr ! (2 * i + 1))"
  have "Suc (i * 2) < length ?hexStr"
    using assms(1,2) by simp
  then have "substr ?hexStr (i * 2) 2 = [?hexStr ! (2 * i), ?hexStr ! (2 * i + 1)]"
    by (simp add: substr_pair mult.commute)
  then have "parseInt (substr ?hexStr (i * 2) 2) 16 = Some (int ?v)"
    using parseInt_hex_pair [OF assms(3,4)] by simp
  moreover have "b256_bytes input ! i = ToUint8 (parseInt (substr ?hexStr (i * 2) 2) 16)"
    using assms(2) by (simp add: b256_bytes_def Let_def del: upt_Suc)
  moreover have "?v < 256"
    using hex_digit_facts(7) [OF assms(3)] hex_digit_facts(7) [OF assms(4)] by simp
  ultimately show ?thesis
    by (simp only: ToUint8_small)
qed

lemma TextEncoder_encode_ascii:
  "\<forall>c \<in> set s. c < 0x80 \<Longrightarrow> TextEncoder_encode s = map ucast s"
proof (induction s rule: TextEncoder_encode.induct)
  case 1
  show ?case by simp
next
  case (2 c)
  then show ?case by simp
next
  case (3 c d cs)
  then show ?case by simp
qed

lemma indexOf_first:
  assumes "i < length xs" "xs ! i = x" "\<forall>j<i. xs ! j \<noteq> x"
  shows "indexOf xs x = int i"
  using assms
proof (induction xs arbitrary: i)
  case Nil
  then show ?case by simp
next
  case (Cons y ys)
  show ?case
  proof (cases i)
    case 0
    with Cons.prems show ?thesis by simp
  next
    case (Suc k)
    with Cons.prems have "k < length ys" "ys ! k = x" "\<forall>j<k. ys ! j \<noteq> x" "y \<noteq> x"
      by auto
    with Cons.IH [of k] Suc show ?thesis
      by (simp add: Let_def)
  qed
qed

lemma find_discriminant_first:
  assumes "\<forall>entry \<in> set pre. x \<notin> set (snd entry)" "x \<in> set variants"
  shows "find_discriminant (pre @ (enumName, variants) # post) x = Some (indexOf variants x)"
  using assms by (induction pre) auto

lemma find_discriminant_None:
  "(\<forall>entry \<in> set entries. x \<notin> set (snd entry)) \<Longrightarrow> find_discriminant entries x = None"
  by (induction entries) auto

lemma uppercase_not_elements: "test_uppercase_first key \<Longrightarrow> key \<noteq> js ''elements''"
  by (auto simp: test_uppercase_first_def js_def)

lemma copy_discriminant:
  "copy_chunks [[d], valueBytes] (replicate (length [d] + length valueBytes) 0) 0 = Inr (d # valueBytes)"
  by (subst copy_chunks_concat) simp_all

text \<open>The enum branch, for a plain object with one key that starts with an uppercase letter.\<close>

lemma encode_enum:
  assumes "test_uppercase_first key"
  shows "encodeInputAsBytes (JObject None [(key, v)]) ctx =
     (case resolve_discriminant ctx key of
        None \<Rightarrow> Inl (EnumVariantNotFound key)
      | Some discriminant \<Rightarrow>
          (case encodeInputAsBytes v ctx of
             Inl e \<Rightarrow> Inl e
           | Inr valueBytes \<Rightarrow> Inr (of_int discriminant # valueBytes)))"
proof -
  have "\<not> test_decimal_digits (js ''[object Object]'')"
    by (simp add: test_decimal_digits_def js_def)
  moreover have "elements_array [(key, v)] = None"
    using uppercase_not_elements [OF assms] by (simp add: elements_array_def)
  ultimately show ?thesis
    using assms copy_discriminant
    by (simp add: Let_def split: option.splits sum.splits)
qed

lemma index_encode_enum:
  assumes "test_uppercase_first key"
  shows "index_encodeInputAsBytes (JObject None [(key, v)]) =
     (case index_encodeInputAsBytes v of
        Inl e \<Rightarrow> Inl e
      | Inr valueBytes \<Rightarrow> Inr (of_int (getEnumDiscriminant key) # valueBytes))"
proof -
  have "\<not> test_decimal_digits (js ''[object Object]'')"
    by (simp add: test_decimal_digits_def js_def)
  moreover have "elements_array [(key, v)] = None"
    using uppercase_not_elements [OF assms] by (simp add: elements_array_def)
  ultimately show ?thesis
    using assms copy_discriminant
    by (simp add: Let_def split: option.splits sum.splits)
qed

lemma getEnumDiscriminant_range: "0 \<le> getEnumDiscriminant name \<and> getEnumDiscriminant name < 256"
  by (auto simp: getEnumDiscriminant_def knownVariants_def split: option.splits if_splits)

lemma indexOf_replicate:
  "a \<noteq> x \<Longrightarrow> 0 \<le> indexOf xs x \<Longrightarrow> indexOf (replicate n a @ xs) x = int n + indexOf xs x"
  by (induction n) (auto simp: Let_def)

lemma index_encode_each_append:
  "index_encode_each (xs @ ys) =
     (case index_encode_each xs of
        Inl e \<Rightarrow> Inl e
      | Inr bs \<Rightarrow> (case index_encode_each ys of Inl e \<Rightarrow> Inl e | Inr cs \<Rightarrow> Inr (bs @ cs)))"
  by (induction xs) (auto split: sum.splits)

lemma index_Hasher_getBytes_eq:
  "index_Hasher_getBytes this h = Inr (concat (index_arrays h ! (index_hashers h ! this)))"
  by (simp add: index_Hasher_getBytes_def concat_chunks_eq)

lemma index_Hasher_update_Inl:
  "fst (index_Hasher_update input this h) = Inl e \<Longrightarrow> snd (index_Hasher_update input this h) = h"
  by (auto simp: index_Hasher_update_def Let_def split: sum.splits)

lemma index_Hasher_update_hashers [simp]:
  "index_hashers (snd (index_Hasher_update input this h)) = index_hashers h"
  by (simp add: index_Hasher_update_def Let_def split: sum.splits)

lemma index_Hasher_update_length [simp]:
  "length (index_arrays (snd (index_Hasher_update input this h))) = length (index_arrays h)"
  by (simp add: index_Hasher_update_def Let_def split: sum.splits)

lemma index_Hasher_update_is_Hasher [simp]:
  "index_is_Hasher (snd (index_Hasher_update input this h)) a = index_is_Hasher h a"
  by (simp add: index_is_Hasher_def)

lemma index_Hasher_update_other:
  "b \<noteq> index_hashers h ! this \<Longrightarrow>
     index_arrays (snd (index_Hasher_update input this h)) ! b = index_arrays h ! b"
  by (simp add: index_Hasher_update_def Let_def split: sum.splits)

lemma index_Hasher_update_Inr:
  assumes "index_is_Hasher h this" and "index_encodeInputAsBytes input = Inr bytes"
  shows "fst (index_Hasher_update input this h) = Inr this"
    and "index_arrays (snd (index_Hasher_update input this h)) ! (index_hashers h ! this) =
           index_arrays h ! (index_hashers h ! this) @ [bytes]"
  using assms by (simp_all add: index_Hasher_update_def Let_def index_is_Hasher_def)

lemma index_Hasher_update_Inr_ex:
  assumes "index_is_Hasher h this" and "index_encodeInputAsBytes input = Inr bytes"
  obtains h' where "index_Hasher_update input this h = (Inr this, h')"
    and "index_is_Hasher h' this" and "index_hashers h' = index_hashers h"
    and "index_arrays h' ! (index_hashers h ! this) = index_arrays h ! (index_hashers h ! this) @ [bytes]"
proof
  let ?h' = "snd (index_Hasher_update input this h)"
  show "index_Hasher_update input this h = (Inr this, ?h')"
    using index_Hasher_update_Inr(1) [OF assms] by (simp add: prod_eq_iff)
  show "index_is_Hasher ?h' this"
    using assms(1) by simp
  show "index_hashers ?h' = index_hashers h"
    by simp
  show "index_arrays ?h' ! (index_hashers h ! this) = index_arrays h ! (index_hashers h ! this) @ [bytes]"
    by (rule index_Hasher_update_Inr(2) [OF assms])
qed

lemma index_update_chain_hashers [simp]:
  "index_hashers (snd (index_update_chain vs this h)) = index_hashers h"
proof (induction vs arbitrary: this h)
  case Nil
  show ?case by simp
next
  case (Cons v vs)
  obtain r h' where u: "index_Hasher_update v this h = (r, h')"
    by (cases "index_Hasher_update v this h")
  have "index_hashers h' = index_hashers h"
    using index_Hasher_update_hashers [of v this h] u by simp
  with u Cons.IH show ?case
    by (cases r) simp_all
qed

lemma index_update_chain_result:
  assumes "index_is_Hasher h this"
  shows "fst (index_update_chain vs this h) =
           (case index_encode_each vs of Inl e \<Rightarrow> Inl e | Inr bs \<Rightarrow> Inr this)"
    and "index_encode_each vs = Inr bs \<Longrightarrow>
           index_arrays (snd (index_update_chain vs this h)) ! (index_hashers h ! this) =
             index_arrays h ! (index_hashers h ! this) @ bs"
  using assms
proof (induction vs arbitrary: h bs)
  case Nil
  { case 1 show ?case by simp }
  { case 2 then show ?case by simp }
next
  case (Cons v vs)
  { case 1
    show ?case
    proof (cases "index_encodeInputAsBytes v")
      case (Inl e)
      then show ?thesis
        by (simp add: index_Hasher_update_def Let_def)
    next
      case (Inr b)
      from 1 Inr obtain h' where u: "index_Hasher_update v this h = (Inr this, h')"
        and h': "index_is_Hasher h' this" "index_hashers h' = index_hashers h"
        by (rule index_Hasher_update_Inr_ex)
      from Cons.IH(1) [OF h'(1)] u Inr h'(2) show ?thesis
        by (simp split: sum.splits)
    qed }
  { case 2
    from 2(1) obtain b bs' where b: "index_encodeInputAsBytes v = Inr b"
      and bs': "index_encode_each vs = Inr bs'" and bs: "bs = b # bs'"
      by (auto split: sum.splits)
    from 2(2) b obtain h' where u: "index_Hasher_update v this h = (Inr this, h')"
      and h': "index_is_Hasher h' this" "index_hashers h' = index_hashers h"
      and a: "index_arrays h' ! (index_hashers h ! this) = index_arrays h ! (index_hashers h ! this) @ [b]"
      by (rule index_Hasher_update_Inr_ex)
    from Cons.IH(2) [OF _ h'(1), of bs'] bs' u h'(2) a bs
    show ?case
      by simp }
qed

lemma index_Hasher_new_facts:
  assumes "index_Hasher_new h = (a, h0)"
  shows "index_is_Hasher h0 a" "index_arrays h0 ! (index_hashers h0 ! a) = []"
    "a = length (index_hashers h)" "index_hashers h0 ! a = length (index_arrays h)"
  using assms
  by (auto simp: index_Hasher_new_def index_new_array_def index_is_Hasher_def Let_def nth_append)

lemma index_chain_getBytes_eq:
  assumes "index_is_Hasher h this"
  shows "index_chain_getBytes vs this h =
     (case index_encode_each vs of
        Inl e \<Rightarrow> Inl e
      | Inr bs \<Rightarrow> Inr (concat (index_arrays h ! (index_hashers h ! this)) @ concat bs))"
proof (cases "index_encode_each vs")
  case (Inl e)
  with index_update_chain_result(1) [OF assms, of vs] have "fst (index_update_chain vs this h) = Inl e"
    by simp
  then show ?thesis
    using Inl by (cases "index_update_chain vs this h") (simp add: index_chain_getBytes_def)
next
  case (Inr bs)
  with index_update_chain_result(1) [OF assms, of vs]
  have f: "fst (index_update_chain vs this h) = Inr this"
    by simp
  have "index_arrays (snd (index_update_chain vs this h)) ! (index_hashers h ! this) =
          index_arrays h ! (index_hashers h ! this) @ bs"
    using index_update_chain_result(2) [OF assms Inr] .
  then have "index_Hasher_getBytes this (snd (index_update_chain vs this h)) =
          Inr (concat (index_arrays h ! (index_hashers h ! this)) @ concat bs)"
    by (simp add: index_Hasher_getBytes_eq)
  then show ?thesis
    using f Inr by (cases "index_update_chain vs this h") (simp add: index_chain_getBytes_def)
qed

lemma index_encodeMultipleInputs_eq:
  "index_encodeMultipleInputs args =
     (case index_encode_each args of Inl e \<Rightarrow> Inl e | Inr argBytes \<Rightarrow> Inr (concat argBytes))"
  by (auto simp: index_encodeMultipleInputs_def concat_chunks_eq split: sum.splits)

lemma Hasher_clone_facts:
  assumes "is_Hasher h a1" "Hasher_clone a1 h = (a2, h1)"
  shows "a2 = length (hashers h)" "buffer (hashers h1 ! a2) = Suc (length (arrays h))"
    "hashers h1 ! a1 = hashers h ! a1"
    "enumContext (hashers h1 ! a2) = enumContext (hashers h ! a1)"
    "arrays h1 ! buffer (hashers h ! a1) = arrays h ! buffer (hashers h ! a1)"
    "arrays h1 ! buffer (hashers h1 ! a2) = arrays h ! buffer (hashers h ! a1)"
    "is_Hasher h1 a1" "is_Hasher h1 a2"
  using assms
  by (auto simp: Hasher_clone_def Hasher_new_def new_array_def is_Hasher_def Let_def nth_append)

lemma index_Hasher_clone_facts:
  assumes "index_is_Hasher h a1" "index_Hasher_clone a1 h = (a2, h1)"
  shows "a2 = length (index_hashers h)" "index_hashers h1 ! a2 = Suc (length (index_arrays h))"
    "index_hashers h1 ! a1 = index_hashers h ! a1"
    "index_arrays h1 ! (index_hashers h ! a1) = index_arrays h ! (index_hashers h ! a1)"
    "index_arrays h1 ! (index_hashers h1 ! a2) = index_arrays h ! (index_hashers h ! a1)"
    "index_is_Hasher h1 a1" "index_is_Hasher h1 a2"
  using assms
  by (auto simp: index_Hasher_clone_def index_Hasher_new_def index_new_array_def
      index_is_Hasher_def Let_def nth_append)

lemma encode_each_single:
  "encode_each [a] ctx = (case encodeInputAsBytes a ctx of Inl e \<Rightarrow> Inl e | Inr x \<Rightarrow> Inr [x])"
  by (simp split: sum.splits)

section \<open>The claims\<close>

lemmas eval_defs =
  js_def test_decimal_digits_def test_uppercase_first_def elements_array_def
  resolve_discriminant_def concat_chunks_eq encode_string_def is_enum_context_def
  set_at_def Let_def

text \<open>
  C7. When \<open>update\<close> throws, the heap is the one before the call: the buffer of the Hasher holds
  the chunks it held, no chunk has been pushed, and \<open>getBytes\<close> returns what it returned before.
  This holds for the Hasher of both source files.
\<close>

theorem update_failure_keeps_buffer:
  "(fst (Hasher_update input this h) = Inl e \<longrightarrow>
      snd (Hasher_update input this h) = h \<and>
      Hasher_getBytes this (snd (Hasher_update input this h)) = Hasher_getBytes this h) \<and>
   (fst (index_Hasher_update input' this' ih) = Inl e' \<longrightarrow>
      snd (index_Hasher_update input' this' ih) = ih \<and>
      index_Hasher_getBytes this' (snd (index_Hasher_update input' this' ih)) =
        index_Hasher_getBytes this' ih)"
  by (auto simp: Hasher_update_Inl index_Hasher_update_Inl)

theorem update_failure_keeps_buffer_witness:
  "fst (Hasher_update (JObject None [(js ''Activate'', JBoolean True)]) 0
         \<lparr>arrays = [[[1, 2]]], hashers = [\<lparr>buffer = 0, enumContext = None\<rparr>]\<rparr>)
     = Inl (EnumVariantNotFound (js ''Activate'')) \<and>
   snd (Hasher_update (JObject None [(js ''Activate'', JBoolean True)]) 0
         \<lparr>arrays = [[[1, 2]]], hashers = [\<lparr>buffer = 0, enumContext = None\<rparr>]\<rparr>)
     = \<lparr>arrays = [[[1, 2]]], hashers = [\<lparr>buffer = 0, enumContext = None\<rparr>]\<rparr> \<and>
   Hasher_getBytes 0
       (snd (Hasher_update (JObject None [(js ''Activate'', JBoolean True)]) 0
         \<lparr>arrays = [[[1, 2]]], hashers = [\<lparr>buffer = 0, enumContext = None\<rparr>]\<rparr>))
     = Inr [1, 2] \<and>
   fst (index_Hasher_update JSymbol 0 \<lparr>index_arrays = [[[1, 2]]], index_hashers = [0]\<rparr>)
     = Inl (CannotEncodeType ''symbol'') \<and>
   snd (index_Hasher_update JSymbol 0 \<lparr>index_arrays = [[[1, 2]]], index_hashers = [0]\<rparr>)
     = \<lparr>index_arrays = [[[1, 2]]], index_hashers = [0]\<rparr> \<and>
   index_Hasher_getBytes 0
       (snd (index_Hasher_update JSymbol 0 \<lparr>index_arrays = [[[1, 2]]], index_hashers = [0]\<rparr>))
     = Inr [1, 2]"
proof -
  let ?v = "JObject None [(js ''Activate'', JBoolean True)]"
  let ?h = "\<lparr>arrays = [[[1, 2]]], hashers = [\<lparr>buffer = 0, enumContext = None\<rparr>]\<rparr>"
  let ?ih = "\<lparr>index_arrays = [[[1, 2]]], index_hashers = [0]\<rparr>"
  have a: "fst (Hasher_update ?v 0 ?h) = Inl (EnumVariantNotFound (js ''Activate''))"
    by (simp add: Hasher_update_def eval_defs)
  have b: "fst (index_Hasher_update JSymbol 0 ?ih) = Inl (CannotEncodeType ''symbol'')"
    by (simp add: index_Hasher_update_def)
  have c: "Hasher_getBytes 0 ?h = Inr [1, 2]" "index_Hasher_getBytes 0 ?ih = Inr [1, 2]"
    by (simp_all add: Hasher_getBytes_eq index_Hasher_getBytes_eq)
  from update_failure_keeps_buffer
    [of ?v 0 ?h "EnumVariantNotFound (js ''Activate'')" JSymbol 0 ?ih "CannotEncodeType ''symbol''"]
  show ?thesis
    using a b c by simp
qed

text \<open>
  C8. After \<open>a2 = a1.clone()\<close> the two Hashers are different objects with different buffer arrays
  that hold the same chunks, and the clone has the context of the original; an \<open>update\<close> of either
  one, with any value, leaves the bytes of the other as they were. This holds for the Hasher of
  both source files (the one of \<^verbatim>\<open>src/index.ts\<close> has no context).
\<close>

theorem clone_isolation:
  "(is_Hasher h a1 \<and> Hasher_clone a1 h = (a2, h1) \<longrightarrow>
      a2 \<noteq> a1 \<and> is_Hasher h1 a2 \<and>
      buffer (hashers h1 ! a2) \<noteq> buffer (hashers h1 ! a1) \<and>
      enumContext (hashers h1 ! a2) = enumContext (hashers h1 ! a1) \<and>
      Hasher_getBytes a2 h1 = Hasher_getBytes a1 h \<and>
      Hasher_getBytes a1 h1 = Hasher_getBytes a1 h \<and>
      Hasher_getBytes a1 (snd (Hasher_update x a2 h1)) = Hasher_getBytes a1 h1 \<and>
      Hasher_getBytes a2 (snd (Hasher_update y a1 h1)) = Hasher_getBytes a2 h1) \<and>
   (index_is_Hasher ih b1 \<and> index_Hasher_clone b1 ih = (b2, ih1) \<longrightarrow>
      b2 \<noteq> b1 \<and> index_is_Hasher ih1 b2 \<and>
      index_hashers ih1 ! b2 \<noteq> index_hashers ih1 ! b1 \<and>
      index_Hasher_getBytes b2 ih1 = index_Hasher_getBytes b1 ih \<and>
      index_Hasher_getBytes b1 ih1 = index_Hasher_getBytes b1 ih \<and>
      index_Hasher_getBytes b1 (snd (index_Hasher_update x' b2 ih1)) = index_Hasher_getBytes b1 ih1 \<and>
      index_Hasher_getBytes b2 (snd (index_Hasher_update y' b1 ih1)) = index_Hasher_getBytes b2 ih1)"
proof (intro conjI impI; elim conjE)
  assume a: "is_Hasher h a1" "Hasher_clone a1 h = (a2, h1)"
  note f = Hasher_clone_facts [OF a]
  have lt: "a1 < length (hashers h)" "buffer (hashers h ! a1) < length (arrays h)"
    using a(1) by (simp_all add: is_Hasher_def)
  show "a2 \<noteq> a1"
    using f(1) lt by simp
  show "is_Hasher h1 a2"
    by (rule f(8))
  show d: "buffer (hashers h1 ! a2) \<noteq> buffer (hashers h1 ! a1)"
    using f(2,3) lt by simp
  show "enumContext (hashers h1 ! a2) = enumContext (hashers h1 ! a1)"
    using f(3,4) by simp
  show "Hasher_getBytes a2 h1 = Hasher_getBytes a1 h"
    using f(6) by (simp add: Hasher_getBytes_eq)
  show "Hasher_getBytes a1 h1 = Hasher_getBytes a1 h"
    using f(3,5) by (simp add: Hasher_getBytes_eq)
  show "Hasher_getBytes a1 (snd (Hasher_update x a2 h1)) = Hasher_getBytes a1 h1"
    using d by (simp add: Hasher_getBytes_eq Hasher_update_other)
  show "Hasher_getBytes a2 (snd (Hasher_update y a1 h1)) = Hasher_getBytes a2 h1"
    using d by (simp add: Hasher_getBytes_eq Hasher_update_other)
next
  assume a: "index_is_Hasher ih b1" "index_Hasher_clone b1 ih = (b2, ih1)"
  note f = index_Hasher_clone_facts [OF a]
  have lt: "b1 < length (index_hashers ih)" "index_hashers ih ! b1 < length (index_arrays ih)"
    using a(1) by (simp_all add: index_is_Hasher_def)
  show "b2 \<noteq> b1"
    using f(1) lt by simp
  show "index_is_Hasher ih1 b2"
    by (rule f(7))
  show d: "index_hashers ih1 ! b2 \<noteq> index_hashers ih1 ! b1"
    using f(2,3) lt by simp
  show "index_Hasher_getBytes b2 ih1 = index_Hasher_getBytes b1 ih"
    using f(5) by (simp add: index_Hasher_getBytes_eq)
  show "index_Hasher_getBytes b1 ih1 = index_Hasher_getBytes b1 ih"
    using f(3,4) by (simp add: index_Hasher_getBytes_eq)
  show "index_Hasher_getBytes b1 (snd (index_Hasher_update x' b2 ih1)) = index_Hasher_getBytes b1 ih1"
    using d by (simp add: index_Hasher_getBytes_eq index_Hasher_update_other)
  show "index_Hasher_getBytes b2 (snd (index_Hasher_update y' b1 ih1)) = index_Hasher_getBytes b2 ih1"
    using d by (simp add: index_Hasher_getBytes_eq index_Hasher_update_other)
qed

theorem clone_isolation_witness:
  "is_Hasher \<lparr>arrays = [[[1, 2]]], hashers = [\<lparr>buffer = 0, enumContext = None\<rparr>]\<rparr> 0 \<and>
   Hasher_clone 0 \<lparr>arrays = [[[1, 2]]], hashers = [\<lparr>buffer = 0, enumContext = None\<rparr>]\<rparr> =
     (1, \<lparr>arrays = [[[1, 2]], [], [[1, 2]]],
          hashers = [\<lparr>buffer = 0, enumContext = None\<rparr>, \<lparr>buffer = 2, enumContext = None\<rparr>]\<rparr>) \<and>
   Hasher_getBytes 1
     (snd (Hasher_update (JBoolean True) 1
        \<lparr>arrays = [[[1, 2]], [], [[1, 2]]],
         hashers = [\<lparr>buffer = 0, enumContext = None\<rparr>, \<lparr>buffer = 2, enumContext = None\<rparr>]\<rparr>)) =
     Inr [1, 2, 1] \<and>
   Hasher_getBytes 0
     (snd (Hasher_update (JBoolean True) 1
        \<lparr>arrays = [[[1, 2]], [], [[1, 2]]],
         hashers = [\<lparr>buffer = 0, enumContext = None\<rparr>, \<lparr>buffer = 2, enumContext = None\<rparr>]\<rparr>)) =
     Inr [1, 2] \<and>
   index_is_Hasher \<lparr>index_arrays = [[[1, 2]]], index_hashers = [0]\<rparr> 0 \<and>
   index_Hasher_clone 0 \<lparr>index_arrays = [[[1, 2]]], index_hashers = [0]\<rparr> =
     (1, \<lparr>index_arrays = [[[1, 2]], [], [[1, 2]]], index_hashers = [0, 2]\<rparr>) \<and>
   index_Hasher_getBytes 0
     (snd (index_Hasher_update (JBoolean True) 1
        \<lparr>index_arrays = [[[1, 2]], [], [[1, 2]]], index_hashers = [0, 2]\<rparr>)) =
     Inr [1, 2]"
proof -
  let ?h = "\<lparr>arrays = [[[1, 2]]], hashers = [\<lparr>buffer = 0, enumContext = None\<rparr>]\<rparr>"
  let ?h1 = "\<lparr>arrays = [[[1, 2]], [], [[1, 2]]],
             hashers = [\<lparr>buffer = 0, enumContext = None\<rparr>, \<lparr>buffer = 2, enumContext = None\<rparr>]\<rparr>"
  let ?ih = "\<lparr>index_arrays = [[[1, 2]]], index_hashers = [0]\<rparr>"
  let ?ih1 = "\<lparr>index_arrays = [[[1, 2]], [], [[1, 2]]], index_hashers = [0, 2]\<rparr>"
  have a: "is_Hasher ?h 0" "index_is_Hasher ?ih 0"
    by (simp_all add: is_Hasher_def index_is_Hasher_def)
  have b: "Hasher_clone 0 ?h = (1, ?h1)"
    by (simp add: Hasher_clone_def Hasher_new_def new_array_def)
  have c: "index_Hasher_clone 0 ?ih = (1, ?ih1)"
    by (simp add: index_Hasher_clone_def index_Hasher_new_def index_new_array_def)
  have d: "Hasher_getBytes 0 ?h1 = Inr [1, 2]" "index_Hasher_getBytes 0 ?ih1 = Inr [1, 2]"
    by (simp_all add: Hasher_getBytes_eq index_Hasher_getBytes_eq)
  have e: "Hasher_getBytes 1 (snd (Hasher_update (JBoolean True) 1 ?h1)) = Inr [1, 2, 1]"
    by (simp add: Hasher_getBytes_eq Hasher_update_def)
  from clone_isolation [of ?h 0 1 ?h1 "JBoolean True" "JBoolean True" ?ih 0 1 ?ih1 "JBoolean True" "JBoolean True"]
  show ?thesis
    using a b c d e by simp
qed

text \<open>
  C9. \<open>null\<close>, \<open>undefined\<close>, the empty array and the empty plain object all encode to no bytes, under
  any context and in both source files; an \<open>update\<close> with one of them succeeds and leaves
  \<open>getBytes\<close> and the digest (\<open>finalize\<close>, and \<open>digest\<close> in \<^verbatim>\<open>src/index.ts\<close>) as they were, whatever
  the hash function.
\<close>

theorem empty_values_encode_to_nothing:
  "encodeInputAsBytes JNull ctx = Inr [] \<and> encodeInputAsBytes JUndefined ctx = Inr [] \<and>
   encodeInputAsBytes (JArray []) ctx = Inr [] \<and> encodeInputAsBytes (JObject None []) ctx = Inr [] \<and>
   index_encodeInputAsBytes JNull = Inr [] \<and> index_encodeInputAsBytes JUndefined = Inr [] \<and>
   index_encodeInputAsBytes (JArray []) = Inr [] \<and> index_encodeInputAsBytes (JObject None []) = Inr [] \<and>
   (is_Hasher h this \<and> v \<in> {JNull, JUndefined, JArray [], JObject None []} \<longrightarrow>
      fst (Hasher_update v this h) = Inr this \<and>
      Hasher_getBytes this (snd (Hasher_update v this h)) = Hasher_getBytes this h \<and>
      Hasher_finalize sha256 this (snd (Hasher_update v this h)) = Hasher_finalize sha256 this h) \<and>
   (index_is_Hasher ih this' \<and> v' \<in> {JNull, JUndefined, JArray [], JObject None []} \<longrightarrow>
      fst (index_Hasher_update v' this' ih) = Inr this' \<and>
      index_Hasher_getBytes this' (snd (index_Hasher_update v' this' ih)) =
        index_Hasher_getBytes this' ih \<and>
      index_Hasher_digest sha256 this' (snd (index_Hasher_update v' this' ih)) =
        index_Hasher_digest sha256 this' ih)"
proof -
  have e: "encodeInputAsBytes JNull ctx = Inr []" "encodeInputAsBytes JUndefined ctx = Inr []"
    "encodeInputAsBytes (JArray []) ctx = Inr []" "encodeInputAsBytes (JObject None []) ctx = Inr []"
    for ctx
    by (simp_all add: js_def test_decimal_digits_def elements_array_def concat_chunks_eq)
  have i: "index_encodeInputAsBytes JNull = Inr []" "index_encodeInputAsBytes JUndefined = Inr []"
    "index_encodeInputAsBytes (JArray []) = Inr []" "index_encodeInputAsBytes (JObject None []) = Inr []"
    by (simp_all add: js_def test_decimal_digits_def elements_array_def concat_chunks_eq)
  have "fst (Hasher_update v this h) = Inr this \<and>
      Hasher_getBytes this (snd (Hasher_update v this h)) = Hasher_getBytes this h \<and>
      Hasher_finalize sha256 this (snd (Hasher_update v this h)) = Hasher_finalize sha256 this h"
    if "is_Hasher h this" "v \<in> {JNull, JUndefined, JArray [], JObject None []}"
  proof -
    from that(2) e have "encodeInputAsBytes v (enumContext (hashers h ! this)) = Inr []"
      by auto
    from Hasher_update_Inr [OF that(1) this] show ?thesis
      by (simp add: Hasher_getBytes_eq Hasher_finalize_def)
  qed
  moreover have "fst (index_Hasher_update v' this' ih) = Inr this' \<and>
      index_Hasher_getBytes this' (snd (index_Hasher_update v' this' ih)) =
        index_Hasher_getBytes this' ih \<and>
      index_Hasher_digest sha256 this' (snd (index_Hasher_update v' this' ih)) =
        index_Hasher_digest sha256 this' ih"
    if "index_is_Hasher ih this'" "v' \<in> {JNull, JUndefined, JArray [], JObject None []}"
  proof -
    from that(2) i have "index_encodeInputAsBytes v' = Inr []"
      by auto
    from index_Hasher_update_Inr [OF that(1) this] show ?thesis
      by (simp add: index_Hasher_getBytes_eq index_Hasher_digest_def concat_chunks_eq)
  qed
  ultimately show ?thesis
    using e i by blast
qed

theorem empty_values_encode_to_nothing_witness:
  "is_Hasher \<lparr>arrays = [[[1, 2]]], hashers = [\<lparr>buffer = 0, enumContext = None\<rparr>]\<rparr> 0 \<and>
   fst (Hasher_update (JObject None []) 0
          \<lparr>arrays = [[[1, 2]]], hashers = [\<lparr>buffer = 0, enumContext = None\<rparr>]\<rparr>) = Inr 0 \<and>
   snd (Hasher_update (JObject None []) 0
          \<lparr>arrays = [[[1, 2]]], hashers = [\<lparr>buffer = 0, enumContext = None\<rparr>]\<rparr>) =
     \<lparr>arrays = [[[1, 2], []]], hashers = [\<lparr>buffer = 0, enumContext = None\<rparr>]\<rparr> \<and>
   Hasher_getBytes 0
     (snd (Hasher_update (JObject None []) 0
          \<lparr>arrays = [[[1, 2]]], hashers = [\<lparr>buffer = 0, enumContext = None\<rparr>]\<rparr>)) = Inr [1, 2] \<and>
   Hasher_finalize (\<lambda>bs. map ucast bs) 0
     (snd (Hasher_update (JObject None []) 0
          \<lparr>arrays = [[[1, 2]]], hashers = [\<lparr>buffer = 0, enumContext = None\<rparr>]\<rparr>)) = Inr [1, 2] \<and>
   index_is_Hasher \<lparr>index_arrays = [[[1, 2]]], index_hashers = [0]\<rparr> 0 \<and>
   index_Hasher_digest (\<lambda>bs. map ucast bs) 0
     (snd (index_Hasher_update (JArray []) 0 \<lparr>index_arrays = [[[1, 2]]], index_hashers = [0]\<rparr>)) =
       Inr [1, 2]"
proof -
  let ?h = "\<lparr>arrays = [[[1, 2]]], hashers = [\<lparr>buffer = 0, enumContext = None\<rparr>]\<rparr>"
  let ?ih = "\<lparr>index_arrays = [[[1, 2]]], index_hashers = [0]\<rparr>"
  have a: "is_Hasher ?h 0" "index_is_Hasher ?ih 0"
    by (simp_all add: is_Hasher_def index_is_Hasher_def)
  have b: "Hasher_getBytes 0 ?h = Inr [1, 2]"
    "Hasher_finalize (\<lambda>bs. map ucast bs) 0 ?h = Inr [1, 2]"
    "index_Hasher_digest (\<lambda>bs. map ucast bs) 0 ?ih = Inr [1, 2]"
    by (simp_all add: Hasher_getBytes_eq Hasher_finalize_def index_Hasher_digest_def concat_chunks_eq)
  have c: "snd (Hasher_update (JObject None []) 0 ?h) =
      \<lparr>arrays = [[[1, 2], []]], hashers = [\<lparr>buffer = 0, enumContext = None\<rparr>]\<rparr>"
    by (simp add: Hasher_update_def js_def test_decimal_digits_def elements_array_def concat_chunks_eq)
  from empty_values_encode_to_nothing
    [of None ?h 0 "JObject None []" "\<lambda>bs. map ucast bs" ?ih 0 "JArray []"]
  show ?thesis
    using a b c by simp
qed

text \<open>
  C1, as amended. For two values that encode to \<open>x\<close> and \<open>y\<close> without a context,
  \<open>encodeMultipleInputs(a, b)\<close> returns \<open>x\<close> followed by \<open>y\<close> provided \<open>b\<close> is not taken for an enum
  context (a non-null object, not an array, all of whose property values are arrays of strings).
  When \<open>b\<close> is taken for one, it is removed from the arguments and the result is the encoding of
  \<open>a\<close> under that context. In \<^verbatim>\<open>src/index.ts\<close>, which has no context, the law holds for all values.
\<close>

theorem encodeMultipleInputs_concatenates:
  "(encodeInputAsBytes a None = Inr x \<and> encodeInputAsBytes b None = Inr y \<and> \<not> is_enum_context b \<longrightarrow>
      encodeMultipleInputs [a, b] = Inr (x @ y)) \<and>
   (is_enum_context b' \<longrightarrow>
      encodeMultipleInputs [a', b'] = encodeInputAsBytes a' (Some (as_enum_context b'))) \<and>
   (index_encodeInputAsBytes c = Inr x' \<and> index_encodeInputAsBytes d = Inr y' \<longrightarrow>
      index_encodeMultipleInputs [c, d] = Inr (x' @ y'))"
proof (intro conjI impI; (elim conjE)?)
  assume "encodeInputAsBytes a None = Inr x" "encodeInputAsBytes b None = Inr y" "\<not> is_enum_context b"
  then show "encodeMultipleInputs [a, b] = Inr (x @ y)"
    by (simp add: encodeMultipleInputs_plain)
next
  assume "is_enum_context b'"
  then show "encodeMultipleInputs [a', b'] = encodeInputAsBytes a' (Some (as_enum_context b'))"
    using encodeMultipleInputs_context [of b' "[a']"] by (simp split: sum.splits)
next
  assume "index_encodeInputAsBytes c = Inr x'" "index_encodeInputAsBytes d = Inr y'"
  then show "index_encodeMultipleInputs [c, d] = Inr (x' @ y')"
    by (simp add: index_encodeMultipleInputs_eq)
qed

theorem encodeMultipleInputs_concatenates_witness:
  "encodeInputAsBytes (JBoolean True) None = Inr [1] \<and>
   encodeInputAsBytes (JString (js ''hi'')) None = Inr [0x68, 0x69] \<and>
   \<not> is_enum_context (JString (js ''hi'')) \<and>
   encodeMultipleInputs [JBoolean True, JString (js ''hi'')] = Inr [1, 0x68, 0x69] \<and>
   is_enum_context (JObject None [(js ''Kind'', JArray [JString (js ''Activate'')])]) \<and>
   encodeMultipleInputs
     [JObject None [(js ''Activate'', JBoolean True)],
      JObject None [(js ''Kind'', JArray [JString (js ''Activate'')])]] = Inr [0, 1] \<and>
   index_encodeMultipleInputs [JBoolean True, JString (js ''hi'')] = Inr [1, 0x68, 0x69]"
proof -
  let ?c = "JObject None [(js ''Kind'', JArray [JString (js ''Activate'')])]"
  have a: "encodeInputAsBytes (JBoolean True) None = Inr [1]"
    "encodeInputAsBytes (JString (js ''hi'')) None = Inr [0x68, 0x69]"
    "index_encodeInputAsBytes (JBoolean True) = Inr [1]"
    "index_encodeInputAsBytes (JString (js ''hi'')) = Inr [0x68, 0x69]"
    by (simp_all add: encode_string_def js_def)
  have b: "\<not> is_enum_context (JString (js ''hi''))" "is_enum_context ?c"
    by (simp_all add: is_enum_context_def)
  have c: "encodeInputAsBytes (JObject None [(js ''Activate'', JBoolean True)])
      (Some (as_enum_context ?c)) = Inr [0, 1]"
    by (simp add: eval_defs)
  from encodeMultipleInputs_concatenates
    [of "JBoolean True" "[1]" "JString (js ''hi'')" "[0x68, 0x69]" ?c
      "JObject None [(js ''Activate'', JBoolean True)]"
      "JBoolean True" "[1]" "JString (js ''hi'')" "[0x68, 0x69]"]
  show ?thesis
    using a b c by simp
qed

text \<open>
  The claim as stated fails for \<open>a = true\<close> and \<open>b = {x: ["hi"]}\<close>: each encodes on its own, to
  \<open>[1]\<close> and to \<open>[0x68, 0x69]\<close>, and \<open>encodeMultipleInputs(a, b)\<close> returns \<open>[1]\<close>.
\<close>

theorem encodeMultipleInputs_concatenates_counterexample:
  "encodeInputAsBytes (JBoolean True) None = Inr [1] \<and>
   encodeInputAsBytes (JObject None [(js ''x'', JArray [JString (js ''hi'')])]) None = Inr [0x68, 0x69] \<and>
   encodeMultipleInputs [JBoolean True, JObject None [(js ''x'', JArray [JString (js ''hi'')])]] = Inr [1] \<and>
   encodeMultipleInputs [JBoolean True, JObject None [(js ''x'', JArray [JString (js ''hi'')])]]
     \<noteq> Inr ([1] @ [0x68, 0x69])"
  by (simp add: eval_defs encodeMultipleInputs_def)

text \<open>
  C2, as amended. A fresh Hasher without context, updated with \<open>v1 ... vn\<close> in order, returns from
  \<open>getBytes\<close> what \<open>encodeMultipleInputs(v1, ..., vn)\<close> returns, and throws when it throws, provided
  the last value is not taken for an enum context; a fresh Hasher with the context \<open>c\<close> agrees with
  \<open>encodeMultipleInputs(v1, ..., vn, c)\<close>. In \<^verbatim>\<open>src/index.ts\<close> the two agree for all values.
\<close>

theorem hasher_chain_equals_encodeMultipleInputs:
  "(vs = [] \<or> \<not> is_enum_context (last vs) \<longrightarrow>
      chain_getBytes vs (fst (Hasher_new None h)) (snd (Hasher_new None h)) = encodeMultipleInputs vs) \<and>
   (is_enum_context c \<longrightarrow>
      chain_getBytes vs' (fst (Hasher_new (Some (as_enum_context c)) h'))
        (snd (Hasher_new (Some (as_enum_context c)) h')) = encodeMultipleInputs (vs' @ [c])) \<and>
   index_chain_getBytes ws (fst (index_Hasher_new ih)) (snd (index_Hasher_new ih)) =
     index_encodeMultipleInputs ws"
proof (intro conjI impI)
  obtain a h0 where n: "Hasher_new None h = (a, h0)"
    by (cases "Hasher_new None h")
  assume "vs = [] \<or> \<not> is_enum_context (last vs)"
  then show "chain_getBytes vs (fst (Hasher_new None h)) (snd (Hasher_new None h)) = encodeMultipleInputs vs"
    using Hasher_new_facts(1-3) [OF n] n
    by (simp add: chain_getBytes_eq encodeMultipleInputs_plain split: sum.splits)
next
  let ?ctx = "Some (as_enum_context c)"
  obtain a h0 where n: "Hasher_new ?ctx h' = (a, h0)"
    by (cases "Hasher_new ?ctx h'")
  assume "is_enum_context c"
  then show "chain_getBytes vs' (fst (Hasher_new ?ctx h')) (snd (Hasher_new ?ctx h')) =
      encodeMultipleInputs (vs' @ [c])"
    using Hasher_new_facts(1-3) [OF n] n
    by (simp add: chain_getBytes_eq encodeMultipleInputs_context split: sum.splits)
next
  obtain a h0 where n: "index_Hasher_new ih = (a, h0)"
    by (cases "index_Hasher_new ih")
  show "index_chain_getBytes ws (fst (index_Hasher_new ih)) (snd (index_Hasher_new ih)) =
      index_encodeMultipleInputs ws"
    using index_Hasher_new_facts(1,2) [OF n] n
    by (simp add: index_chain_getBytes_eq index_encodeMultipleInputs_eq split: sum.splits)
qed

theorem hasher_chain_equals_encodeMultipleInputs_witness:
  "\<not> is_enum_context (last [JBoolean True, JString (js ''hi'')]) \<and>
   chain_getBytes [JBoolean True, JString (js ''hi'')]
     (fst (Hasher_new None \<lparr>arrays = [], hashers = []\<rparr>))
     (snd (Hasher_new None \<lparr>arrays = [], hashers = []\<rparr>)) = Inr [1, 0x68, 0x69] \<and>
   encodeMultipleInputs [JBoolean True, JString (js ''hi'')] = Inr [1, 0x68, 0x69] \<and>
   is_enum_context (JObject None [(js ''Kind'', JArray [JString (js ''Activate'')])]) \<and>
   chain_getBytes [JObject None [(js ''Activate'', JBoolean True)]]
     (fst (Hasher_new (Some [(js ''Kind'', [js ''Activate''])]) \<lparr>arrays = [], hashers = []\<rparr>))
     (snd (Hasher_new (Some [(js ''Kind'', [js ''Activate''])]) \<lparr>arrays = [], hashers = []\<rparr>)) =
       Inr [0, 1] \<and>
   encodeMultipleInputs
     [JObject None [(js ''Activate'', JBoolean True)],
      JObject None [(js ''Kind'', JArray [JString (js ''Activate'')])]] = Inr [0, 1]"
proof -
  let ?c = "JObject None [(js ''Kind'', JArray [JString (js ''Activate'')])]"
  let ?vs = "[JBoolean True, JString (js ''hi'')]"
  let ?h = "\<lparr>arrays = [], hashers = []\<rparr>"
  have a: "\<not> is_enum_context (last ?vs)" "is_enum_context ?c"
    "as_enum_context ?c = [(js ''Kind'', [js ''Activate''])]"
    by (simp_all add: is_enum_context_def)
  have b: "encodeMultipleInputs ?vs = Inr [1, 0x68, 0x69]"
    by (simp add: eval_defs encodeMultipleInputs_def)
  have c: "encodeMultipleInputs [JObject None [(js ''Activate'', JBoolean True)], ?c] = Inr [0, 1]"
    by (simp add: encodeMultipleInputs_def eval_defs)
  from hasher_chain_equals_encodeMultipleInputs
    [of ?vs ?h ?c "[JObject None [(js ''Activate'', JBoolean True)]]" ?h]
  show ?thesis
    using a b c by simp
qed

text \<open>
  The claim as stated fails for the one value \<open>{x: ["hi"]}\<close>: the Hasher returns its two bytes,
  \<open>encodeMultipleInputs\<close> takes it for the context and returns no bytes.
\<close>

theorem hasher_chain_equals_encodeMultipleInputs_counterexample:
  "encodeInputAsBytes (JObject None [(js ''x'', JArray [JString (js ''hi'')])]) None = Inr [0x68, 0x69] \<and>
   chain_getBytes [JObject None [(js ''x'', JArray [JString (js ''hi'')])]]
     (fst (Hasher_new None \<lparr>arrays = [], hashers = []\<rparr>))
     (snd (Hasher_new None \<lparr>arrays = [], hashers = []\<rparr>)) = Inr [0x68, 0x69] \<and>
   encodeMultipleInputs [JObject None [(js ''x'', JArray [JString (js ''hi'')])]] = Inr []"
  by (simp add: eval_defs encodeMultipleInputs_def chain_getBytes_def Hasher_new_def new_array_def
      Hasher_update_def Hasher_getBytes_eq)

end
